theory Spec2Isabelle
  imports Main "HOL-Library.Monad_Syntax"
begin

section \<open>The Hack assembler \<^verbatim>\<open>n2tAssembler.c\<close>\<close>

text \<open>
  A shallow embedding of \<^verbatim>\<open>src/Project6/Assembler/n2tAssembler.c\<close>.

  \<^item> A \<^verbatim>\<open>uint8_t\<close> array is a \<open>string\<close> (a list of bytes) of the array's length;
    a C string is the bytes of an array before its first NUL (\<open>cstr\<close>).
  \<^item> Every function that indexes an array returns an \<open>option\<close>: \<open>None\<close> is an access
    outside the array, which C leaves undefined.
  \<^item> \<^verbatim>\<open>uint16_t\<close> and \<^verbatim>\<open>uint32_t\<close> are \<open>nat\<close> with the wrap-around written out.
  \<^item> The globals \<^verbatim>\<open>gSymbolTable\<close>, \<^verbatim>\<open>gSymbolTableMeta\<close>, \<^verbatim>\<open>gInsFields\<close> and the output
    file are the fields of the record \<open>state\<close>, passed through every function.
\<close>

subsection \<open>Macros and bytes\<close>

abbreviation LINEBUFFER_SIZE :: nat where "LINEBUFFER_SIZE \<equiv> 100"
abbreviation BITFIELD_MAX :: nat where "BITFIELD_MAX \<equiv> 16"
abbreviation COMP_FIELD_LEN :: nat where "COMP_FIELD_LEN \<equiv> 7"
abbreviation DEST_FIELD_LEN :: nat where "DEST_FIELD_LEN \<equiv> 3"
abbreviation JUMP_FIELD_LEN :: nat where "JUMP_FIELD_LEN \<equiv> 3"
abbreviation C_INST_PAD_LEN :: nat where "C_INST_PAD_LEN \<equiv> 3"
abbreviation INVALID_VALUE :: char where "INVALID_VALUE \<equiv> CHR 0xFF"
abbreviation CURR_MEMORY :: nat where "CURR_MEMORY \<equiv> 16"
abbreviation SYMBOLTABLE_TAIL :: nat where "SYMBOLTABLE_TAIL \<equiv> 23"

text \<open>The number of elements of \<^verbatim>\<open>gSymbolTable[65535]\<close>.\<close>
abbreviation SYMBOLTABLE_SIZE :: nat where "SYMBOLTABLE_SIZE \<equiv> 65535"

abbreviation NUL :: char where "NUL \<equiv> CHR 0x00"
abbreviation CR :: char where "CR \<equiv> CHR 0x0D"
abbreviation LF :: char where "LF \<equiv> CHR 0x0A"

text \<open>\<^verbatim>\<open>SYSTEM_SUCCESS\<close> is \<^verbatim>\<open>1U\<close> and \<^verbatim>\<open>SYSTEM_FAILURE\<close> is \<^verbatim>\<open>(int32_t)(-1)\<close>; a status
  variable only ever holds one of the two.\<close>
datatype status = SYSTEM_SUCCESS | SYSTEM_FAILURE

subsection \<open>Arrays and C strings\<close>

definition rd :: "string \<Rightarrow> nat \<Rightarrow> char option" where
  "rd a i = (if i < length a then Some (a ! i) else None)"

definition wr :: "string \<Rightarrow> nat \<Rightarrow> char \<Rightarrow> string option" where
  "wr a i c = (if i < length a then Some (a[i := c]) else None)"

text \<open>The C string an array holds: its bytes before the first NUL.\<close>
definition cstr :: "string \<Rightarrow> string" where
  "cstr a = takeWhile (\<lambda>c. c \<noteq> NUL) a"

text \<open>The C string that starts at \<^verbatim>\<open>&a[p]\<close>; reading it runs past the array when no NUL
  follows.\<close>
definition cstr_at :: "string \<Rightarrow> nat \<Rightarrow> string option" where
  "cstr_at a p = (if NUL \<in> set (drop p a) then Some (cstr (drop p a)) else None)"

text \<open>\<^verbatim>\<open>strlen(a)\<close>\<close>
definition strlen :: "string \<Rightarrow> nat option" where
  "strlen a = map_option length (cstr_at a 0)"

text \<open>\<^verbatim>\<open>strcpy(&dst[pos], src)\<close> for a C string \<open>src\<close>: its bytes and the terminating NUL.\<close>
definition strcpy :: "string \<Rightarrow> nat \<Rightarrow> string \<Rightarrow> string option" where
  "strcpy dst pos src =
     (if pos + length src < length dst
      then Some (take pos dst @ src @ NUL # drop (pos + length src + 1) dst)
      else None)"

text \<open>
  The copying loops of the parser all have the shape
  \<^verbatim>\<open>while (!stop(*ptr)) { fld[index++] = *ptr; ptr++; }\<close>
  The loop condition reads \<^verbatim>\<open>*ptr\<close> first, then the body writes \<^verbatim>\<open>fld[index]\<close>. The result
  is the array, and \<^verbatim>\<open>ptr\<close> and \<^verbatim>\<open>index\<close> at the exit. (\<^verbatim>\<open>index\<close> is a \<^verbatim>\<open>uint8_t\<close>; no
  array here has more than 100 elements, so it leaves the array before it could wrap.)
\<close>
function copyUntil ::
  "(char \<Rightarrow> bool) \<Rightarrow> string \<Rightarrow> nat \<Rightarrow> string \<Rightarrow> nat \<Rightarrow> (string \<times> nat \<times> nat) option" where
  "copyUntil stop line ptr fld index =
     (if ptr < length line then
        (if stop (line ! ptr) then Some (fld, ptr, index)
         else if index < length fld
           then copyUntil stop line (ptr + 1) (fld[index := line ! ptr]) (index + 1)
           else None)
      else None)"
  by pat_completeness auto
termination
  by (relation "measure (\<lambda>(stop, line, ptr, fld, index). length line - ptr)") auto

declare copyUntil.simps [simp del]

text \<open>
  The table scans all have the shape
  \<^verbatim>\<open>for(i = 0; i < n; i++) { if(!strcmp(s, tbl[i].name)) { ... tbl[i].value ...; break; } }\<close>
  The result is the value of the entry the loop breaks at, or \<open>None\<close> when it runs to \<open>n\<close>.
\<close>
function scanTable :: "(string \<times> 'v) list \<Rightarrow> nat \<Rightarrow> nat \<Rightarrow> string \<Rightarrow> 'v option" where
  "scanTable tbl n i s =
     (if i < n then
        (if fst (tbl ! i) = s then Some (snd (tbl ! i)) else scanTable tbl n (i + 1) s)
      else None)"
  by pat_completeness auto
termination
  by (relation "measure (\<lambda>(tbl, n, i, s). n - i)") auto

declare scanTable.simps [simp del]

subsection \<open>Input: \<^verbatim>\<open>fgets\<close>\<close>

text \<open>
  \<^verbatim>\<open>fgets(buf, n, fp)\<close> reads at most \<open>n - 1\<close> bytes and stops after a line feed.
  \<open>fgets_chunk k s\<close> splits the unread rest \<open>s\<close> of the file into the bytes read
  (at most \<open>k\<close>) and the new rest.
\<close>
fun fgets_chunk :: "nat \<Rightarrow> string \<Rightarrow> string \<times> string" where
  "fgets_chunk 0 s = ([], s)"
| "fgets_chunk (Suc k) [] = ([], [])"
| "fgets_chunk (Suc k) (c # s) =
     (if c = LF then ([c], s)
      else (c # fst (fgets_chunk k s), snd (fgets_chunk k s)))"

text \<open>The line buffer after \<^verbatim>\<open>memset(buf, 0, sizeof(buf))\<close> and a successful \<^verbatim>\<open>fgets\<close>.\<close>
definition fgets_buffer :: "string \<Rightarrow> string" where
  "fgets_buffer l = l @ replicate (LINEBUFFER_SIZE - length l) NUL"

text \<open>The buffers that the successive calls of \<^verbatim>\<open>fgets(buf, LINEBUFFER_SIZE, fp)\<close> deliver,
  from the start of the file to its end.\<close>
function fgets_all :: "string \<Rightarrow> string list" where
  "fgets_all [] = []"
| "fgets_all (c # s) =
     fgets_buffer (fst (fgets_chunk (LINEBUFFER_SIZE - 1) (c # s)))
       # fgets_all (snd (fgets_chunk (LINEBUFFER_SIZE - 1) (c # s)))"
  by pat_completeness auto
termination
proof (relation "measure length")
  fix c :: char and s :: string
  have shorter: "length (snd (fgets_chunk k t)) \<le> length t" for k t
    by (induction k t rule: fgets_chunk.induct) auto
  have step: "length (snd (fgets_chunk (Suc k) (c # s))) \<le> length s" for k
    using shorter [of k s] by simp
  have "LINEBUFFER_SIZE - 1 = Suc 98"
    by simp
  then have "length (snd (fgets_chunk (LINEBUFFER_SIZE - 1) (c # s))) < length (c # s)"
    using step [of 98] by (simp only: length_Cons less_Suc_eq_le)
  then show "(snd (fgets_chunk (LINEBUFFER_SIZE - 1) (c # s)), c # s) \<in> measure length"
    by simp
qed simp

declare fgets_all.simps [simp del]

subsection \<open>The program state\<close>

record ISA_Field =
  destFldString :: string
  jmpFldString :: string
  cmpFldString :: string
  addFldString :: string
  bitFields :: string

text \<open>
  \<open>gSymbolTable\<close> holds the entries \<^verbatim>\<open>gSymbolTable[0 .. symbolTableTail - 1]\<close>, each with the
  C string of its \<^verbatim>\<open>symbol\<close> array and its \<^verbatim>\<open>value\<close>; \<^verbatim>\<open>symbolTableTail\<close> is the length of
  the list. The elements from \<^verbatim>\<open>symbolTableTail\<close> on are never written before the tail
  reaches them, so they are all zero, as the C initialiser leaves them.
\<close>
record state =
  gSymbolTable :: "(string \<times> nat) list"
  currMemory :: nat
  gInsFields :: ISA_Field
  opFile :: string

definition compFieldLT :: "(string \<times> string) list" where
  "compFieldLT =
    [(''0'',   ''0101010''), (''1'',   ''0111111''), (''-1'',  ''0111010''),
     (''D'',   ''0001100''), (''A'',   ''0110000''), (''!D'',  ''0001101''),
     (''!A'',  ''0110001''), (''-D'',  ''0001111''), (''-A'',  ''0110011''),
     (''D+1'', ''0011111''), (''A+1'', ''0110111''), (''D-1'', ''0001110''),
     (''A-1'', ''0110010''), (''D+A'', ''0000010''), (''D-A'', ''0010011''),
     (''A-D'', ''0000111''), (''D&A'', ''0000000''), (''D|A'', ''0010101''),
     (''M'',   ''1110000''), (''!M'',  ''1110001''), (''-M'',  ''1110011''),
     (''M+1'', ''1110111''), (''M-1'', ''1110010''), (''D+M'', ''1000010''),
     (''D-M'', ''1010011''), (''M-D'', ''1000111''), (''D&M'', ''1000000''),
     (''D|M'', ''1010101'')]"

definition destFieldLT :: "(string \<times> string) list" where
  "destFieldLT =
    [('''',    ''000''), (''M'',   ''001''), (''D'',   ''010''), (''MD'',  ''011''),
     (''A'',   ''100''), (''AM'',  ''101''), (''AD'',  ''110''), (''AMD'', ''111'')]"

definition jumpFieldLT :: "(string \<times> string) list" where
  "jumpFieldLT =
    [('''',    ''000''), (''JGT'', ''001''), (''JEQ'', ''010''), (''JGE'', ''011''),
     (''JLT'', ''100''), (''JNE'', ''101''), (''JLE'', ''110''), (''JMP'', ''111'')]"

definition initSymbolTable :: "(string \<times> nat) list" where
  "initSymbolTable =
    [(''R0'', 0), (''R1'', 1), (''R2'', 2), (''R3'', 3), (''R4'', 4), (''R5'', 5),
     (''R6'', 6), (''R7'', 7), (''R8'', 8), (''R9'', 9), (''R10'', 10), (''R11'', 11),
     (''R12'', 12), (''R13'', 13), (''R14'', 14), (''R15'', 15),
     (''SCREEN'', 16384), (''KBD'', 24576),
     (''SP'', 0), (''LCL'', 1), (''ARG'', 2), (''THIS'', 3), (''THAT'', 4)]"

definition clearedFields :: ISA_Field where
  "clearedFields =
     \<lparr>destFldString = replicate 5 NUL, jmpFldString = replicate 5 NUL,
      cmpFldString = replicate 5 NUL, addFldString = replicate 10 INVALID_VALUE,
      bitFields = replicate 17 NUL\<rparr>"

definition varInit :: "state \<Rightarrow> state" where
  "varInit st = st\<lparr>gInsFields := clearedFields\<rparr>"

text \<open>The globals as their initialisers and the first \<^verbatim>\<open>varInit\<close> of \<^verbatim>\<open>main\<close> leave them.\<close>
definition initState :: state where
  "initState =
     \<lparr>gSymbolTable = initSymbolTable, currMemory = CURR_MEMORY,
      gInsFields = clearedFields, opFile = []\<rparr>"

subsection \<open>The symbol table: \<^verbatim>\<open>searchSymbolEntry\<close>\<close>

text \<open>The digits that \<^verbatim>\<open>while(value != 0) { str[index] = (value % 10) + '0'; value = value/10;
  index++; }\<close> stores, the least significant first. Zero has no digit.\<close>
fun decDigits :: "nat \<Rightarrow> string" where
  "decDigits v = (if v = 0 then [] else char_of (v mod 10 + 48) # decDigits (v div 10))"

declare decDigits.simps [simp del]

text \<open>
  \<open>searchSymbolEntry line st\<close>, for the C string \<open>line\<close> of the argument. It is copied
  to the local \<^verbatim>\<open>str[LINEBUFFER_SIZE]\<close>, and the copy is cut at \<^verbatim>\<open>str[strLen - 2]\<close> (the index is negative for a string shorter than two
  bytes). The \<^verbatim>\<open>for\<close> loop scans the entries below the tail. A name that is not found is
  stored at
  \<^verbatim>\<open>gSymbolTable[symbolTableTail]\<close>. The value's decimal digits and a NUL then go to
  \<^verbatim>\<open>addFldString\<close>.
\<close>
definition searchSymbolEntry :: "string \<Rightarrow> state \<Rightarrow> state option" where
  "searchSymbolEntry line st =
     (if length line < 2 \<or> LINEBUFFER_SIZE \<le> length line then None
      else do {
        let str = take (length line - 2) line;
        (st1, v) \<leftarrow>
          (case scanTable (gSymbolTable st) (length (gSymbolTable st)) 0 str of
             Some v \<Rightarrow> Some (st, v)
           | None \<Rightarrow>
               if length (gSymbolTable st) < SYMBOLTABLE_SIZE
               then Some (st\<lparr>gSymbolTable := gSymbolTable st @ [(str, currMemory st)],
                              currMemory := (currMemory st + 1) mod 2 ^ 32\<rparr>,
                          currMemory st)
               else None);
        add \<leftarrow> strcpy (addFldString (gInsFields st1)) 0 (rev (decDigits v));
        Some (st1\<lparr>gInsFields := (gInsFields st1)\<lparr>addFldString := add\<rparr>\<rparr>)
      })"

subsection \<open>The encoder: \<^verbatim>\<open>lineCommand\<close>\<close>

text \<open>
  \<^verbatim>\<open>addr += (addFldString[i] - '0') * pow(10, powTen)\<close> adds in \<^verbatim>\<open>double\<close> and converts the sum
  to \<^verbatim>\<open>uint16_t\<close>. The operands are integers far below \<open>2 ^ 53\<close>, so the sum is exact (with
  a \<^verbatim>\<open>pow\<close> that is exact on powers of ten that a \<^verbatim>\<open>double\<close> represents). C defines the
  conversion for sums from 0 to 65535 only; outside it the result is whatever \<open>oor\<close>
  gives, a parameter of the model.
\<close>
definition to_uint16 :: "(int \<Rightarrow> nat) \<Rightarrow> int \<Rightarrow> nat" where
  "to_uint16 oor x = (if 0 \<le> x \<and> x < 65536 then nat x else oor x mod 65536)"

text \<open>The loop \<^verbatim>\<open>while(i < strlength)\<close>; \<^verbatim>\<open>powTen\<close> is a \<^verbatim>\<open>uint8_t\<close>.\<close>
function addrLoop :: "(int \<Rightarrow> nat) \<Rightarrow> string \<Rightarrow> nat \<Rightarrow> nat \<Rightarrow> nat \<Rightarrow> nat \<Rightarrow> nat" where
  "addrLoop oor a strlength i powTen addr =
     (if i < strlength
      then addrLoop oor a strlength (i + 1) ((powTen + 255) mod 256)
             (to_uint16 oor (int addr + (int (of_char (a ! i)) - 48) * 10 ^ powTen))
      else addr)"
  by pat_completeness auto
termination
  by (relation "measure (\<lambda>(oor, a, strlength, i, powTen, addr). strlength - i)") auto

declare addrLoop.simps [simp del]

text \<open>\<^verbatim>\<open>(((addr & (1 << bitPos))) >> bitPos) + '0'\<close>\<close>
definition bitChar :: "nat \<Rightarrow> nat \<Rightarrow> char" where
  "bitChar addr bitPos = char_of (drop_bit bitPos (and addr (push_bit bitPos 1)) + 48)"

text \<open>The loop \<^verbatim>\<open>for(int8_t bitPos = BITFIELD_MAX - 1; bitPos >= 0; bitPos--)\<close>, and the NUL
  stored at \<^verbatim>\<open>bitFields[BITFIELD_MAX]\<close> after it.\<close>
definition addrBits :: "nat \<Rightarrow> string \<Rightarrow> string" where
  "addrBits addr bf =
     (fold (\<lambda>bitPos b. b[BITFIELD_MAX - bitPos - 1 := bitChar addr bitPos])
        [15, 14, 13, 12, 11, 10, 9, 8, 7, 6, 5, 4, 3, 2, 1, 0] bf)[BITFIELD_MAX := NUL]"

text \<open>
  \<open>lineCommand oor f\<close> works on \<^verbatim>\<open>gInsFields\<close>. Each table scan compares the mnemonics with
  the field's C string; \<^verbatim>\<open>strcmp\<close> against a mnemonic of at most three bytes reads at most
  four bytes of the five-byte field. The tables have 28, 8 and 8 entries
  (\<^verbatim>\<open>sizeof(tbl)/sizeof(Instruction_Encoding)\<close>).
\<close>
definition lineCommand :: "(int \<Rightarrow> nat) \<Rightarrow> ISA_Field \<Rightarrow> (ISA_Field \<times> status) option" where
  "lineCommand oor f0 =
     (let f = f0\<lparr>bitFields := replicate 17 NUL\<rparr> in
      if rd (addFldString f) 0 = None then None
      else if rd (addFldString f) 0 \<noteq> Some INVALID_VALUE then
        do {
          strlength \<leftarrow> strlen (addFldString f);
          let addr = addrLoop oor (addFldString f) strlength 0 ((strlength + 255) mod 256) 0;
          Some (f\<lparr>bitFields := addrBits addr (bitFields f)\<rparr>, SYSTEM_SUCCESS)
        }
      else
        do {
          let bf = (bitFields f)[0 := CHR ''1'', 1 := CHR ''1'', 2 := CHR ''1''];
          let bitPos = C_INST_PAD_LEN;
          case scanTable compFieldLT (length compFieldLT) 0 (cstr (cmpFldString f)) of
            None \<Rightarrow> Some (f\<lparr>bitFields := bf\<rparr>, SYSTEM_FAILURE)
          | Some c \<Rightarrow> do {
              bf \<leftarrow> strcpy bf bitPos c;
              let bitPos = bitPos + COMP_FIELD_LEN;
              case scanTable destFieldLT (length destFieldLT) 0 (cstr (destFldString f)) of
                None \<Rightarrow> Some (f\<lparr>bitFields := bf\<rparr>, SYSTEM_FAILURE)
              | Some d \<Rightarrow> do {
                  bf \<leftarrow> strcpy bf bitPos d;
                  let bitPos = bitPos + DEST_FIELD_LEN;
                  case scanTable jumpFieldLT (length jumpFieldLT) 0 (cstr (jmpFldString f)) of
                    None \<Rightarrow> Some (f\<lparr>bitFields := bf\<rparr>, SYSTEM_FAILURE)
                  | Some j \<Rightarrow> do {
                      bf \<leftarrow> strcpy bf bitPos j;
                      let bitPos = bitPos + JUMP_FIELD_LEN;
                      bf \<leftarrow> wr bf bitPos NUL;
                      Some (f\<lparr>bitFields := bf\<rparr>, SYSTEM_SUCCESS)
                    }
                }
            }
        })"

subsection \<open>The parser: \<^verbatim>\<open>lineParser\<close>\<close>

text \<open>\<^verbatim>\<open>(*ptr == '/') && (*(ptr+1) == '/')\<close>\<close>
definition isComment :: "string \<Rightarrow> bool option" where
  "isComment line =
     do {
       c0 \<leftarrow> rd line 0;
       if c0 = CHR ''/'' then do { c1 \<leftarrow> rd line 1; Some (c1 = CHR ''/'') } else Some False
     }"

text \<open>The branch \<^verbatim>\<open>if(*ptr == '@')\<close> up to the call of \<^verbatim>\<open>lineCommand\<close>: a first operand byte
  above \<^verbatim>\<open>'9'\<close> sends the rest of the line to \<^verbatim>\<open>searchSymbolEntry\<close>, any other first byte
  has the operand copied to \<^verbatim>\<open>addFldString\<close> up to the carriage return.\<close>
definition parseAddress :: "string \<Rightarrow> state \<Rightarrow> state option" where
  "parseAddress line st =
     do {
       c \<leftarrow> rd line 1;
       if (of_char c :: nat) > of_char (CHR ''9'') then
         do {
           str \<leftarrow> cstr_at line 1;
           searchSymbolEntry str st
         }
       else
         do {
           (add, ptr, index) \<leftarrow>
             copyUntil (\<lambda>c. c = CR) line 1 (addFldString (gInsFields st)) 0;
           add \<leftarrow> wr add index NUL;
           Some (st\<lparr>gInsFields := (gInsFields st)\<lparr>addFldString := add\<rparr>\<rparr>)
         }
     }"

text \<open>The branch \<^verbatim>\<open>else if(*ptr == '(')\<close>: the label, followed by CR, LF and NUL, goes to
  the local \<^verbatim>\<open>str\<close> and then to \<^verbatim>\<open>searchSymbolEntry\<close>.\<close>
definition parseLabel :: "string \<Rightarrow> state \<Rightarrow> state option" where
  "parseLabel line st =
     do {
       (str, ptr, index) \<leftarrow>
         copyUntil (\<lambda>c. c = CHR '')'') line 1 (replicate LINEBUFFER_SIZE NUL) 0;
       str \<leftarrow> wr str index CR;
       str \<leftarrow> wr str (index + 1) LF;
       str \<leftarrow> wr str (index + 2) NUL;
       searchSymbolEntry (cstr str) st
     }"

text \<open>
  The last branch (\<^verbatim>\<open>/* C Instruction */\<close>) up to the call of \<^verbatim>\<open>lineCommand\<close>. The first
  loop, \<^verbatim>\<open>while(*ptr != '=')\<close> with its \<^verbatim>\<open>break\<close> at \<^verbatim>\<open>';'\<close>, ends at the first of the two
  bytes and at nothing else. The loop \<^verbatim>\<open>while(gInsFields.jmpFldString[index] != '\\0')\<close> at
  the end only reads.
\<close>
definition parseFields :: "string \<Rightarrow> ISA_Field \<Rightarrow> ISA_Field option" where
  "parseFields line f =
     do {
       add \<leftarrow> wr (addFldString f) 0 INVALID_VALUE;
       (dest, ptr, index) \<leftarrow>
         copyUntil (\<lambda>c. c = CHR ''='' \<or> c = CHR '';'') line 0 (destFldString f) 0;
       (dest, ptr) \<leftarrow>
         (if line ! ptr = CHR ''=''
          then do { dest \<leftarrow> wr dest index NUL; Some (dest, ptr + 1) }
          else Some (replicate 5 NUL, 0));
       (cmp, ptr, index) \<leftarrow>
         copyUntil (\<lambda>c. c = CHR '';'' \<or> c = CR) line ptr (cmpFldString f) 0;
       cmp \<leftarrow> wr cmp index NUL;
       jmp \<leftarrow>
         (if line ! ptr = CHR '';''
          then do {
            (jmp, ptr, index) \<leftarrow>
              copyUntil (\<lambda>c. c = CR \<or> c = CHR '' '') line (ptr + 1) (jmpFldString f) 0;
            wr jmp index NUL
          }
          else wr (jmpFldString f) 0 NUL);
       _ \<leftarrow> strlen jmp;
       Some (f\<lparr>destFldString := dest, jmpFldString := jmp, cmpFldString := cmp,
               addFldString := add\<rparr>)
     }"

definition lineParser :: "(int \<Rightarrow> nat) \<Rightarrow> string \<Rightarrow> state \<Rightarrow> (state \<times> status) option" where
  "lineParser oor line st =
     do {
       comment \<leftarrow> isComment line;
       c0 \<leftarrow> rd line 0;
       if comment then Some (st, SYSTEM_FAILURE)
       else if c0 = CR then Some (st, SYSTEM_FAILURE)
       else if c0 = CHR ''@'' then
         do {
           st1 \<leftarrow> parseAddress line st;
           (f, status) \<leftarrow> lineCommand oor (gInsFields st1);
           Some (st1\<lparr>gInsFields := f\<rparr>, status)
         }
       else if c0 = CHR ''('' then
         do {
           st1 \<leftarrow> parseLabel line st;
           Some (st1, SYSTEM_FAILURE)
         }
       else
         do {
           f \<leftarrow> parseFields line (gInsFields st);
           (f, status) \<leftarrow> lineCommand oor f;
           Some (st\<lparr>gInsFields := f\<rparr>, status)
         }
     }"

subsection \<open>The two passes\<close>

text \<open>
  The body of the loop of \<^verbatim>\<open>firstPass\<close> for one line buffer, on the state and \<^verbatim>\<open>lineCount\<close>.
  A label goes byte by byte to the \<^verbatim>\<open>symbol\<close> array of the element at the tail, which is
  all zero; \<^verbatim>\<open>charCount\<close> is the position in the line and \<^verbatim>\<open>charCount - 1\<close> the one in the
  array. \<^verbatim>\<open>lineCount\<close> is a \<^verbatim>\<open>uint32_t\<close>.
\<close>
definition firstPassLine :: "string \<Rightarrow> state \<times> nat \<Rightarrow> (state \<times> nat) option" where
  "firstPassLine lineBuff sl =
     (case sl of (st, lineCount) \<Rightarrow>
        do {
          comment \<leftarrow> isComment lineBuff;
          c0 \<leftarrow> rd lineBuff 0;
          if comment then Some (st, lineCount)
          else if c0 = CR then Some (st, lineCount)
          else if c0 = CHR ''('' then
            (if length (gSymbolTable st) < SYMBOLTABLE_SIZE then
               do {
                 (symbol, charCount, index) \<leftarrow>
                   copyUntil (\<lambda>c. c = CHR '')'') lineBuff 1 (replicate LINEBUFFER_SIZE NUL) 0;
                 symbol \<leftarrow> wr symbol charCount NUL;
                 Some (st\<lparr>gSymbolTable := gSymbolTable st @ [(cstr symbol, lineCount)]\<rparr>,
                       lineCount)
               }
             else None)
          else Some (st, (lineCount + 1) mod 2 ^ 32)
        })"

fun firstPassLoop :: "string list \<Rightarrow> state \<times> nat \<Rightarrow> (state \<times> nat) option" where
  "firstPassLoop [] sl = Some sl"
| "firstPassLoop (lineBuff # rest) sl =
     do { sl1 \<leftarrow> firstPassLine lineBuff sl; firstPassLoop rest sl1 }"

text \<open>\<open>firstPass file st\<close> for the bytes of the input file.\<close>
definition firstPass :: "string \<Rightarrow> state \<Rightarrow> state option" where
  "firstPass file st = map_option fst (firstPassLoop (fgets_all file) (st, 0))"

text \<open>\<^verbatim>\<open>fputs(&gInsFields.bitFields[0], filePtr); fputs("\\n", filePtr);\<close>\<close>
definition lineWriter :: "state \<Rightarrow> state option" where
  "lineWriter st =
     do {
       word \<leftarrow> cstr_at (bitFields (gInsFields st)) 0;
       Some (st\<lparr>opFile := opFile st @ word @ [LF]\<rparr>)
     }"

text \<open>The loop of \<^verbatim>\<open>secondPass\<close> over the line buffers.\<close>
fun secondPassLoop :: "(int \<Rightarrow> nat) \<Rightarrow> string list \<Rightarrow> state \<Rightarrow> state option" where
  "secondPassLoop oor [] st = Some st"
| "secondPassLoop oor (lineBuffer # rest) st =
     do {
       (st1, status) \<leftarrow> lineParser oor lineBuffer st;
       st2 \<leftarrow> (if status = SYSTEM_SUCCESS then lineWriter st1 else Some st1);
       secondPassLoop oor rest (varInit st2)
     }"

text \<open>\<open>secondPass\<close> rewinds the input file and reads it again from its start.\<close>
definition secondPass :: "(int \<Rightarrow> nat) \<Rightarrow> string \<Rightarrow> state \<Rightarrow> state option" where
  "secondPass oor file st = secondPassLoop oor (fgets_all file) st"

text \<open>\<^verbatim>\<open>main\<close> with both files open: the bytes of the output file for the bytes of the
  input file.\<close>
definition assemble :: "(int \<Rightarrow> nat) \<Rightarrow> string \<Rightarrow> string option" where
  "assemble oor file =
     do {
       st1 \<leftarrow> firstPass file initState;
       st2 \<leftarrow> secondPass oor file st1;
       Some (opFile st2)
     }"

text \<open>The word that the bit loop of \<open>lineCommand\<close> leaves in the cleared \<^verbatim>\<open>bitFields\<close> for
  \<^verbatim>\<open>addr\<close>, as \<open>lineWriter\<close> prints it.\<close>
definition addrWord :: "nat \<Rightarrow> string" where
  "addrWord addr = cstr (addrBits addr (replicate 17 NUL))"

section \<open>Reading the input and the output\<close>

text \<open>
  The definitions of this section are no part of the program. They build its input and read
  its output: the bytes of a file whose lines end in CR LF, the buffer \<^verbatim>\<open>fgets\<close> delivers for
  one such line, the number a string of decimal digits denotes, and the number a string of
  binary digits denotes, the most significant first.
\<close>

definition crlf_file :: "string list \<Rightarrow> string" where
  "crlf_file ls = concat (map (\<lambda>l. l @ [CR, LF]) ls)"

definition asmLine :: "string \<Rightarrow> string" where
  "asmLine l = fgets_buffer (l @ [CR, LF])"

definition digit :: "char \<Rightarrow> bool" where
  "digit c = (48 \<le> (of_char c :: nat) \<and> (of_char c :: nat) \<le> 57)"

definition decval :: "string \<Rightarrow> nat" where
  "decval ds = foldl (\<lambda>v c. 10 * v + (of_char c - 48)) 0 ds"

definition binval :: "string \<Rightarrow> nat" where
  "binval w = foldl (\<lambda>v c. 2 * v + (if c = CHR ''1'' then 1 else 0)) 0 w"

text \<open>
  The kinds of line buffers, as both passes tell them apart, in this order: a comment starts
  with two slashes, a blank line with a carriage return, a label declaration with an opening
  parenthesis; every other line is an instruction line. The name a label line declares is
  the text between the opening parenthesis and the first closing one.
\<close>
definition isCommentLine :: "string \<Rightarrow> bool" where
  "isCommentLine l = (take 2 l = ''//'')"

definition isBlankLine :: "string \<Rightarrow> bool" where
  "isBlankLine l = (take 1 l = [CR])"

definition isLabelLine :: "string \<Rightarrow> bool" where
  "isLabelLine l = (take 1 l = ''('')"

definition isInstructionLine :: "string \<Rightarrow> bool" where
  "isInstructionLine l = (\<not> isCommentLine l \<and> \<not> isBlankLine l \<and> \<not> isLabelLine l)"

definition labelName :: "string \<Rightarrow> string" where
  "labelName l = cstr (takeWhile (\<lambda>c. c \<noteq> CHR '')'') (tl l))"

text \<open>The entries the label lines of \<open>ls\<close> stand for, in the order of the lines: the name
  of each with the number of instruction lines before it.\<close>
definition labelEntries :: "string list \<Rightarrow> (string \<times> nat) list" where
  "labelEntries ls =
     map (\<lambda>i. (labelName (ls ! i), length (filter isInstructionLine (take i ls))))
       (filter (\<lambda>i. isLabelLine (ls ! i)) [0..<length ls])"

text \<open>
  The kinds of the lines of a text whose lines end in CR LF, each line taken without its line
  end, in this order: a comment starts with two slashes, a blank line is empty, a label
  declaration starts with an opening parenthesis; every other line is an instruction line.
  The name a label line declares is the text between the opening parenthesis and the first
  closing one. \<open>labelTable ls\<close> holds, for the label lines of \<open>ls\<close> in their order, the name with
  the number of instruction lines before the label line.
\<close>
definition isCommentText :: "string \<Rightarrow> bool" where
  "isCommentText l = (take 2 l = ''//'')"

definition isBlankText :: "string \<Rightarrow> bool" where
  "isBlankText l = (l = [])"

definition isLabelText :: "string \<Rightarrow> bool" where
  "isLabelText l = (take 1 l = ''('')"

definition isInstructionText :: "string \<Rightarrow> bool" where
  "isInstructionText l = (\<not> isCommentText l \<and> \<not> isBlankText l \<and> \<not> isLabelText l)"

definition labelText :: "string \<Rightarrow> string" where
  "labelText l = takeWhile (\<lambda>c. c \<noteq> CHR '')'') (tl l)"

definition labelTable :: "string list \<Rightarrow> (string \<times> nat) list" where
  "labelTable ls =
     map (\<lambda>i. (labelText (ls ! i), length (filter isInstructionText (take i ls))))
       (filter (\<lambda>i. isLabelText (ls ! i)) [0..<length ls])"

text \<open>What one call of \<open>searchSymbolEntry\<close> can do to the symbol table: nothing, or append
  one entry for a name that is not in it, with the value \<^verbatim>\<open>currMemory\<close>, and increment
  \<^verbatim>\<open>currMemory\<close>.\<close>
definition tableStep :: "state \<Rightarrow> state \<Rightarrow> bool" where
  "tableStep st st' =
     (opFile st' = opFile st \<and>
      ((gSymbolTable st' = gSymbolTable st \<and> currMemory st' = currMemory st) \<or>
       (\<exists>name. map_of (gSymbolTable st) name = None \<and> length (gSymbolTable st) < SYMBOLTABLE_SIZE \<and>
          gSymbolTable st' = gSymbolTable st @ [(name, currMemory st)] \<and>
          currMemory st' = (currMemory st + 1) mod 2 ^ 32)))"

section \<open>Arrays, strings and loops\<close>

lemma scanTable_drop: "i \<le> length tbl \<Longrightarrow> scanTable tbl (length tbl) i s = map_of (drop i tbl) s"
proof (induction "length tbl - i" arbitrary: i)
  case 0
  then show ?case by (simp add: scanTable.simps)
next
  case (Suc k)
  then have lt: "i < length tbl" by simp
  then have d: "drop i tbl = tbl ! i # drop (Suc i) tbl"
    by (simp add: Cons_nth_drop_Suc)
  from Suc have "scanTable tbl (length tbl) (Suc i) s = map_of (drop (Suc i) tbl) s"
    by simp
  with lt d show ?case
    by (subst scanTable.simps) (auto simp: prod_eq_iff)
qed

lemma scanTable_map_of: "scanTable tbl (length tbl) 0 s = map_of tbl s"
  using scanTable_drop [of 0 tbl s] by simp

lemma copyUntil_stop:
  assumes "\<forall>c \<in> set xs. \<not> stop c" and "stop y" and "index + length xs \<le> length fld"
  shows "copyUntil stop (pre @ xs @ y # rest) (length pre) fld index =
           Some (take index fld @ xs @ drop (index + length xs) fld,
                 length pre + length xs, index + length xs)"
  using assms
proof (induction xs arbitrary: pre fld index)
  case Nil
  then show ?case by (subst copyUntil.simps) simp
next
  case (Cons x xs)
  have "copyUntil stop ((pre @ [x]) @ xs @ y # rest) (length (pre @ [x])) (fld[index := x]) (Suc index) =
      Some (take (Suc index) (fld[index := x]) @ xs @ drop (Suc index + length xs) (fld[index := x]),
                 length (pre @ [x]) + length xs, Suc index + length xs)"
    using Cons.prems by (intro Cons.IH) auto
  moreover have "take (Suc index) (fld[index := x]) = take index fld @ [x]"
    using Cons.prems by (simp add: take_Suc_conv_app_nth)
  ultimately show ?case
    using Cons.prems by (subst copyUntil.simps) (simp add: nth_append)
qed

lemma copyUntil_never:
  "\<forall>i. ptr \<le> i \<and> i < length line \<longrightarrow> \<not> stop (line ! i) \<Longrightarrow> copyUntil stop line ptr fld index = None"
proof (induction stop line ptr fld index rule: copyUntil.induct)
  case (1 stop line ptr fld index)
  show ?case
  proof (cases "ptr < length line \<and> index < length fld")
    case True
    with 1 have "copyUntil stop line (ptr + 1) (fld[index := line ! ptr]) (index + 1) = None"
      by auto
    with True 1 show ?thesis by (subst copyUntil.simps) auto
  next
    case False
    with 1 show ?thesis by (subst copyUntil.simps) auto
  qed
qed

lemma cstr_append_NUL: "NUL \<notin> set xs \<Longrightarrow> cstr (xs @ NUL # ys) = xs"
  by (auto simp: cstr_def takeWhile_tail)

lemma cstr_at_append_NUL:
  "NUL \<notin> set xs \<Longrightarrow> cstr_at (pre @ xs @ NUL # ys) (length pre) = Some xs"
  by (simp add: cstr_at_def cstr_append_NUL)

lemma strlen_append_NUL: "NUL \<notin> set xs \<Longrightarrow> strlen (xs @ NUL # ys) = Some (length xs)"
  using cstr_at_append_NUL [of xs "[]" ys] by (simp add: strlen_def)

lemma fgets_chunk_line:
  "LF \<notin> set l \<Longrightarrow> length l < k \<Longrightarrow> fgets_chunk k (l @ LF # s) = (l @ [LF], s)"
proof (induction l arbitrary: k)
  case Nil
  then show ?case by (cases k) simp_all
next
  case (Cons c l)
  then show ?case by (cases k) auto
qed

lemma fgets_all_line:
  assumes "LF \<notin> set l" and "length l < 99"
  shows "fgets_all (l @ LF # s) = fgets_buffer (l @ [LF]) # fgets_all s"
proof -
  obtain c t where ct: "l @ LF # s = c # t"
    by (cases l) auto
  have "fgets_chunk (LINEBUFFER_SIZE - 1) (l @ LF # s) = (l @ [LF], s)"
    using assms by (simp add: fgets_chunk_line)
  then show ?thesis
    unfolding ct by (simp add: fgets_all.simps)
qed

section \<open>The encoder\<close>

lemma comp_code_length: "map_of compFieldLT m = Some c \<Longrightarrow> length c = 7"
  by (auto simp: compFieldLT_def split: if_splits)

lemma dest_code_length: "map_of destFieldLT m = Some c \<Longrightarrow> length c = 3"
  by (auto simp: destFieldLT_def split: if_splits)

lemma jump_code_length: "map_of jumpFieldLT m = Some c \<Longrightarrow> length c = 3"
  by (auto simp: jumpFieldLT_def split: if_splits)

lemma pad_ones: "(replicate 17 NUL)[0 := CHR ''1'', Suc 0 := CHR ''1'', 2 := CHR ''1''] = ''111'' @ replicate 14 NUL"
  by (simp add: numeral_eq_Suc)

lemma lineCommand_comp:
  assumes "rd (addFldString f) 0 = Some INVALID_VALUE"
    and "map_of compFieldLT (cstr (cmpFldString f)) = Some c"
    and "map_of destFieldLT (cstr (destFldString f)) = Some d"
    and "map_of jumpFieldLT (cstr (jmpFldString f)) = Some j"
  shows "lineCommand oor f = Some (f\<lparr>bitFields := ''111'' @ c @ d @ j @ [NUL]\<rparr>, SYSTEM_SUCCESS)"
  using assms comp_code_length [OF assms(2)] dest_code_length [OF assms(3)] jump_code_length [OF assms(4)]
  by (simp add: lineCommand_def scanTable_map_of pad_ones strcpy_def wr_def list_update_append)

lemma decval_foldl:
  "foldl (\<lambda>v c. 10 * v + (of_char c - 48)) a xs = a * 10 ^ length xs + decval xs"
proof -
  define f :: "nat \<Rightarrow> char \<Rightarrow> nat" where "f = (\<lambda>v c. 10 * v + (of_char c - 48))"
  have "foldl f a xs = a * 10 ^ length xs + foldl f 0 xs"
  proof (induction xs arbitrary: a)
    case Nil
    show ?case by simp
  next
    case (Cons x xs)
    have "foldl f (f a x) xs = f a x * 10 ^ length xs + foldl f 0 xs"
      by (rule Cons.IH)
    moreover have "foldl f (f 0 x) xs = f 0 x * 10 ^ length xs + foldl f 0 xs"
      by (rule Cons.IH)
    moreover have "f a x = 10 * a + f 0 x"
      by (simp add: f_def)
    ultimately show ?case
      by (simp add: algebra_simps)
  qed
  then show ?thesis
    by (simp add: f_def decval_def)
qed

lemma decval_Cons: "decval (x # xs) = (of_char x - 48) * 10 ^ length xs + decval xs"
  using decval_foldl [of "of_char x - 48" xs] by (simp add: decval_def)

lemma decval_Nil: "decval [] = 0"
  by (simp add: decval_def)

lemma addrLoop_digits:
  assumes "\<forall>c \<in> set xs. digit c" and "addr + decval xs \<le> 65535" and "length pre = i"
    and "xs \<noteq> [] \<longrightarrow> p = length xs - 1" and "length xs \<le> 256"
  shows "addrLoop oor (pre @ xs @ rest) (i + length xs) i p addr = addr + decval xs"
  using assms
proof (induction xs arbitrary: pre i p addr)
  case Nil
  then show ?case by (subst addrLoop.simps) (simp add: decval_Nil)
next
  case (Cons x xs)
  let ?d = "of_char x - 48 :: nat"
  have dx: "48 \<le> (of_char x :: nat)"
    using Cons.prems(1) by (simp add: digit_def)
  have p: "p = length xs"
    using Cons.prems(4) by simp
  have small: "addr + ?d * 10 ^ length xs + decval xs \<le> 65535"
    using Cons.prems(2) by (simp add: decval_Cons)
  have conv: "to_uint16 oor (int addr + (int (of_char x) - 48) * 10 ^ p) = addr + ?d * 10 ^ length xs"
  proof -
    have "int addr + (int (of_char x) - 48) * 10 ^ p = int (addr + ?d * 10 ^ length xs)"
      using dx p by simp
    moreover have "addr + ?d * 10 ^ length xs < 65536"
      using small by simp
    ultimately show ?thesis
      unfolding to_uint16_def by (simp del: of_nat_add of_nat_mult of_nat_power)
  qed
  have next_p: "xs \<noteq> [] \<longrightarrow> (p + 255) mod 256 = length xs - 1"
  proof
    assume "xs \<noteq> []"
    then have "0 < p" "p \<le> 255"
      using p Cons.prems(5) by simp_all
    then show "(p + 255) mod 256 = length xs - 1"
      unfolding p by (simp add: mod_if)
  qed
  have "addrLoop oor ((pre @ [x]) @ xs @ rest) (Suc i + length xs) (Suc i) ((p + 255) mod 256)
          (addr + ?d * 10 ^ length xs) = addr + ?d * 10 ^ length xs + decval xs"
    using Cons.prems small next_p by (intro Cons.IH) simp_all
  then show ?case
    using Cons.prems(3) conv by (subst addrLoop.simps) (simp add: decval_Cons nth_append)
qed

lemma char_of_49: "char_of (49::nat) = CHR ''1''"
  by (simp add: char_of_def bit_0)

lemma char_of_48: "char_of (48::nat) = CHR ''0''"
  by (simp add: char_of_def bit_0)

lemma bitChar_eq: "bitChar addr k = (if bit addr k then CHR ''1'' else CHR ''0'')"
proof -
  have "drop_bit k (and addr (push_bit k 1)) = (of_bool (bit addr k) :: nat)"
    by (rule bit_eqI) (auto simp: bit_simps)
  then show ?thesis
    by (simp add: bitChar_def char_of_def bit_0)
qed

lemma addrBits_cleared:
  "addrBits addr (replicate 17 NUL) =
     map (bitChar addr) [15, 14, 13, 12, 11, 10, 9, 8, 7, 6, 5, 4, 3, 2, 1, 0] @ [NUL]"
  by (simp add: addrBits_def numeral_eq_Suc)

lemma upt_16: "[0..<16] = [0, 1, 2, 3, 4, 5, 6, 7, 8, 9, 10, 11, 12, 13, 14, 15]"
  by (simp add: upt_rec)

lemma bitChar_value: "(if bitChar n k = CHR ''1'' then 1 else 0) = (of_bool (bit n k) :: nat)"
  by (simp add: bitChar_eq)

lemma binval_bits:
  assumes "n < 65536"
  shows "binval (map (bitChar n) [15, 14, 13, 12, 11, 10, 9, 8, 7, 6, 5, 4, 3, 2, 1, 0]) = n"
proof -
  have "horner_sum of_bool 2 (map (bit n) [0..<16]) = take_bit 16 n"
    by (rule horner_sum_bit_eq_take_bit)
  moreover have "take_bit 16 n = n"
    using assms by (simp add: take_bit_nat_eq_self_iff)
  ultimately have "horner_sum of_bool 2 (map (bit n) [0, 1, 2, 3, 4, 5, 6, 7, 8, 9, 10, 11, 12, 13, 14, 15]) = n"
    by (simp only: upt_16)
  then show ?thesis
    by (simp add: binval_def bitChar_value split del: if_split)
qed

lemma lineCommand_addr:
  assumes "addFldString f = ds @ NUL # rest" and "NUL \<notin> set ds"
    and "hd (ds @ [NUL]) \<noteq> INVALID_VALUE"
  shows "lineCommand oor f =
    Some (f\<lparr>bitFields := addrBits (addrLoop oor (ds @ NUL # rest) (length ds) 0
                                     ((length ds + 255) mod 256) 0) (replicate 17 NUL)\<rparr>,
          SYSTEM_SUCCESS)"
proof -
  have "rd (addFldString f) 0 = Some (hd (ds @ [NUL]))"
    unfolding assms(1) by (cases ds) (simp_all add: rd_def)
  moreover have "strlen (addFldString f) = Some (length ds)"
    unfolding assms(1) using assms(2) by (rule strlen_append_NUL)
  ultimately show ?thesis
    using assms(3) by (simp add: lineCommand_def assms(1))
qed

section \<open>The parser\<close>

lemma wr_after: "wr (xs @ y # ys) (length xs) c = Some (xs @ c # ys)"
  by (simp add: wr_def)

lemma parseAddress_literal:
  assumes line: "line = CHR ''@'' # ds @ CR # rest"
    and "CR \<notin> set ds"
    and "\<not> (of_char (hd (ds @ [CR])) :: nat) > of_char (CHR ''9'')"
    and "length ds < length (addFldString (gInsFields st))"
  shows "parseAddress line st =
     Some (st\<lparr>gInsFields := (gInsFields st)
             \<lparr>addFldString := ds @ NUL # drop (length ds + 1) (addFldString (gInsFields st))\<rparr>\<rparr>)"
proof -
  let ?add = "addFldString (gInsFields st)"
  have first: "rd line 1 = Some (hd (ds @ [CR]))"
    unfolding line by (cases ds) (simp_all add: rd_def)
  have "copyUntil (\<lambda>c. c = CR) ([CHR ''@''] @ ds @ CR # rest) (length [CHR ''@'']) ?add 0 =
      Some (take 0 ?add @ ds @ drop (0 + length ds) ?add, length [CHR ''@''] + length ds, 0 + length ds)"
    using assms(2,4) by (intro copyUntil_stop) auto
  then have copy: "copyUntil (\<lambda>c. c = CR) line 1 ?add 0 =
      Some (ds @ drop (length ds) ?add, 1 + length ds, length ds)"
    by (simp add: line)
  have "drop (length ds) ?add = ?add ! length ds # drop (length ds + 1) ?add"
    using assms(4) by (simp add: Cons_nth_drop_Suc)
  then have "wr (ds @ drop (length ds) ?add) (length ds) NUL =
      Some (ds @ NUL # drop (length ds + 1) ?add)"
    by (simp add: wr_after)
  with first copy assms(3) show ?thesis
    by (simp add: parseAddress_def)
qed

lemma parseAddress_symbol:
  assumes line: "line = CHR ''@'' # s @ NUL # rest"
    and "NUL \<notin> set s"
    and "(of_char (hd (s @ [NUL])) :: nat) > of_char (CHR ''9'')"
  shows "parseAddress line st = searchSymbolEntry s st"
proof -
  have first: "rd line 1 = Some (hd (s @ [NUL]))"
    unfolding line by (cases s) (simp_all add: rd_def)
  have "cstr_at ([CHR ''@''] @ s @ NUL # rest) (length [CHR ''@'']) = Some s"
    using assms(2) by (rule cstr_at_append_NUL)
  then have "cstr_at line 1 = Some s"
    by (simp add: line)
  with first assms(3) show ?thesis
    by (simp add: parseAddress_def)
qed

lemma strcpy_start:
  "length s < length dst \<Longrightarrow> strcpy dst 0 s = Some (s @ NUL # drop (length s + 1) dst)"
  by (simp add: strcpy_def)

lemma searchSymbolEntry_found:
  assumes "map_of (gSymbolTable st) name = Some v"
    and "length name < 98"
    and "length (decDigits v) < length (addFldString (gInsFields st))"
  shows "searchSymbolEntry (name @ [c1, c2]) st =
     Some (st\<lparr>gInsFields := (gInsFields st)
       \<lparr>addFldString := rev (decDigits v) @ NUL #
            drop (length (decDigits v) + 1) (addFldString (gInsFields st))\<rparr>\<rparr>)"
  using assms by (simp add: searchSymbolEntry_def scanTable_map_of strcpy_start)

lemma searchSymbolEntry_new:
  assumes "map_of (gSymbolTable st) name = None"
    and "length name < 98"
    and "length (gSymbolTable st) < SYMBOLTABLE_SIZE"
    and "length (decDigits (currMemory st)) < length (addFldString (gInsFields st))"
  shows "searchSymbolEntry (name @ [c1, c2]) st =
     Some (st\<lparr>gSymbolTable := gSymbolTable st @ [(name, currMemory st)],
              currMemory := (currMemory st + 1) mod 2 ^ 32,
              gInsFields := (gInsFields st)
       \<lparr>addFldString := rev (decDigits (currMemory st)) @ NUL #
            drop (length (decDigits (currMemory st)) + 1) (addFldString (gInsFields st))\<rparr>\<rparr>)"
  using assms by (simp add: searchSymbolEntry_def scanTable_map_of strcpy_start)

lemma asmLine_eq: "asmLine l = l @ CR # LF # replicate (98 - length l) NUL"
  by (simp add: asmLine_def fgets_buffer_def)

lemma fgets_all_crlf_file:
  "\<forall>l \<in> set ls. LF \<notin> set l \<and> length l < 98 \<Longrightarrow> fgets_all (crlf_file ls) = map asmLine ls"
proof (induction ls)
  case Nil
  show ?case by (simp add: crlf_file_def fgets_all.simps)
next
  case (Cons l ls)
  have "fgets_all ((l @ [CR]) @ LF # crlf_file ls) = fgets_buffer ((l @ [CR]) @ [LF]) # fgets_all (crlf_file ls)"
    using Cons.prems by (intro fgets_all_line) auto
  then show ?case
    using Cons by (simp add: crlf_file_def asmLine_def)
qed

lemma copyUntil_start:
  assumes "\<forall>c \<in> set xs. \<not> stop c" and "stop y" and "length xs \<le> length fld"
  shows "copyUntil stop (xs @ y # rest) 0 fld 0 = Some (xs @ drop (length xs) fld, length xs, length xs)"
  using copyUntil_stop [of xs stop y 0 fld "[]" rest] assms by simp

lemma copyUntil_from:
  assumes "\<forall>c \<in> set xs. \<not> stop c" and "stop y" and "length xs \<le> length fld" and "p = length pre"
  shows "copyUntil stop (pre @ xs @ y # rest) p fld 0 =
           Some (xs @ drop (length xs) fld, length pre + length xs, length xs)"
  using copyUntil_stop [of xs stop y 0 fld pre rest] assms by simp

lemma wr_terminator:
  "length xs < length fld \<Longrightarrow> wr (xs @ drop (length xs) fld) (length xs) NUL = Some (xs @ NUL # drop (length xs + 1) fld)"
  using wr_after [of xs "fld ! length xs" "drop (length xs + 1) fld" NUL]
  by (simp add: Cons_nth_drop_Suc)

lemma parseFields_dest_comp:
  assumes line: "line = d @ CHR ''='' # c @ CR # rest"
    and d: "\<forall>x \<in> set d. x \<noteq> CHR ''='' \<and> x \<noteq> CHR '';''" "length d < length (destFldString f)"
    and c: "\<forall>x \<in> set c. x \<noteq> CHR '';'' \<and> x \<noteq> CR" "length c < length (cmpFldString f)"
    and f: "0 < length (jmpFldString f)" "0 < length (addFldString f)"
  shows "parseFields line f = Some (f\<lparr>
      destFldString := d @ NUL # drop (length d + 1) (destFldString f),
      jmpFldString := NUL # drop 1 (jmpFldString f),
      cmpFldString := c @ NUL # drop (length c + 1) (cmpFldString f),
      addFldString := INVALID_VALUE # drop 1 (addFldString f)\<rparr>)"
proof -
  have add: "wr (addFldString f) 0 INVALID_VALUE = Some (INVALID_VALUE # drop 1 (addFldString f))"
    using f(2) by (cases "addFldString f") (simp_all add: wr_def)
  have dest: "copyUntil (\<lambda>c. c = CHR ''='' \<or> c = CHR '';'') line 0 (destFldString f) 0 =
      Some (d @ drop (length d) (destFldString f), length d, length d)"
    unfolding line using d by (intro copyUntil_start) auto
  have at_d: "line ! length d = CHR ''=''"
    by (simp add: line)
  have cmp: "copyUntil (\<lambda>c. c = CHR '';'' \<or> c = CR) line (length d + 1) (cmpFldString f) 0 =
      Some (c @ drop (length c) (cmpFldString f), length d + 1 + length c, length c)"
    using copyUntil_from [of c "\<lambda>c. c = CHR '';'' \<or> c = CR" CR "cmpFldString f" "length d + 1"
        "d @ [CHR ''='']" rest] c
    by (simp add: line)
  have at_c: "line ! (length d + 1 + length c) = CR"
    using nth_append_length [of "d @ CHR ''='' # c" CR rest] by (simp add: line)
  have jmp: "wr (jmpFldString f) 0 NUL = Some (NUL # drop 1 (jmpFldString f))"
    using f(1) by (cases "jmpFldString f") (simp_all add: wr_def)
  have len: "strlen (NUL # drop 1 (jmpFldString f)) = Some 0"
    using strlen_append_NUL [of "[]" "drop 1 (jmpFldString f)"] by simp
  show ?thesis
    using add dest at_d cmp at_c jmp len d(2) c(2)
    by (simp add: parseFields_def wr_terminator)
qed

lemma parseFields_comp_jump:
  assumes line: "line = c @ CHR '';'' # j @ t # rest"
    and c: "\<forall>x \<in> set c. x \<noteq> CHR ''='' \<and> x \<noteq> CHR '';'' \<and> x \<noteq> CR"
      "length c < length (cmpFldString f)" "length c \<le> length (destFldString f)"
    and j: "\<forall>x \<in> set j. x \<noteq> CR \<and> x \<noteq> CHR '' '' \<and> x \<noteq> NUL" "length j < length (jmpFldString f)"
    and t: "t = CR \<or> t = CHR '' ''"
    and f: "0 < length (addFldString f)"
  shows "parseFields line f = Some (f\<lparr>
      destFldString := replicate 5 NUL,
      jmpFldString := j @ NUL # drop (length j + 1) (jmpFldString f),
      cmpFldString := c @ NUL # drop (length c + 1) (cmpFldString f),
      addFldString := INVALID_VALUE # drop 1 (addFldString f)\<rparr>)"
proof -
  have add: "wr (addFldString f) 0 INVALID_VALUE = Some (INVALID_VALUE # drop 1 (addFldString f))"
    using f by (cases "addFldString f") (simp_all add: wr_def)
  have dest: "copyUntil (\<lambda>c. c = CHR ''='' \<or> c = CHR '';'') line 0 (destFldString f) 0 =
      Some (c @ drop (length c) (destFldString f), length c, length c)"
    unfolding line using c by (intro copyUntil_start) auto
  have at_c: "line ! length c = CHR '';''"
    by (simp add: line)
  have cmp: "copyUntil (\<lambda>c. c = CHR '';'' \<or> c = CR) line 0 (cmpFldString f) 0 =
      Some (c @ drop (length c) (cmpFldString f), length c, length c)"
    unfolding line using c by (intro copyUntil_start) auto
  have jmp: "copyUntil (\<lambda>c. c = CR \<or> c = CHR '' '') line (length c + 1) (jmpFldString f) 0 =
      Some (j @ drop (length j) (jmpFldString f), length c + 1 + length j, length j)"
    using copyUntil_from [of j "\<lambda>c. c = CR \<or> c = CHR '' ''" t "jmpFldString f" "length c + 1"
        "c @ [CHR '';'']" rest] j t
    by (auto simp: line)
  have len: "strlen (j @ NUL # drop (length j + 1) (jmpFldString f)) = Some (length j)"
    using j(1) by (intro strlen_append_NUL) auto
  show ?thesis
    using add dest at_c cmp jmp len c(2) j(2)
    by (simp add: parseFields_def wr_terminator)
qed

lemma parseFields_dest_comp_jump:
  assumes line: "line = d @ CHR ''='' # c @ CHR '';'' # j @ t # rest"
    and d: "\<forall>x \<in> set d. x \<noteq> CHR ''='' \<and> x \<noteq> CHR '';''" "length d < length (destFldString f)"
    and c: "\<forall>x \<in> set c. x \<noteq> CHR '';'' \<and> x \<noteq> CR" "length c < length (cmpFldString f)"
    and j: "\<forall>x \<in> set j. x \<noteq> CR \<and> x \<noteq> CHR '' '' \<and> x \<noteq> NUL" "length j < length (jmpFldString f)"
    and t: "t = CR \<or> t = CHR '' ''"
    and f: "0 < length (addFldString f)"
  shows "parseFields line f = Some (f\<lparr>
      destFldString := d @ NUL # drop (length d + 1) (destFldString f),
      jmpFldString := j @ NUL # drop (length j + 1) (jmpFldString f),
      cmpFldString := c @ NUL # drop (length c + 1) (cmpFldString f),
      addFldString := INVALID_VALUE # drop 1 (addFldString f)\<rparr>)"
proof -
  have add: "wr (addFldString f) 0 INVALID_VALUE = Some (INVALID_VALUE # drop 1 (addFldString f))"
    using f by (cases "addFldString f") (simp_all add: wr_def)
  have dest: "copyUntil (\<lambda>c. c = CHR ''='' \<or> c = CHR '';'') line 0 (destFldString f) 0 =
      Some (d @ drop (length d) (destFldString f), length d, length d)"
    unfolding line using d by (intro copyUntil_start) auto
  have at_d: "line ! length d = CHR ''=''"
    by (simp add: line)
  have cmp: "copyUntil (\<lambda>c. c = CHR '';'' \<or> c = CR) line (length d + 1) (cmpFldString f) 0 =
      Some (c @ drop (length c) (cmpFldString f), length d + 1 + length c, length c)"
    using copyUntil_from [of c "\<lambda>c. c = CHR '';'' \<or> c = CR" "CHR '';''" "cmpFldString f" "length d + 1"
        "d @ [CHR ''='']" "j @ t # rest"] c
    by (simp add: line)
  have at_c: "line ! (length d + 1 + length c) = CHR '';''"
    using nth_append_length [of "d @ CHR ''='' # c" "CHR '';''" "j @ t # rest"] by (simp add: line)
  have jmp: "copyUntil (\<lambda>c. c = CR \<or> c = CHR '' '') line (length d + 1 + length c + 1) (jmpFldString f) 0 =
      Some (j @ drop (length j) (jmpFldString f), length d + 1 + length c + 1 + length j, length j)"
    using copyUntil_from [of j "\<lambda>c. c = CR \<or> c = CHR '' ''" t "jmpFldString f" "length d + 1 + length c + 1"
        "d @ CHR ''='' # c @ [CHR '';'']" rest] j t
    by (auto simp: line)
  have len: "strlen (j @ NUL # drop (length j + 1) (jmpFldString f)) = Some (length j)"
    using j(1) by (intro strlen_append_NUL) auto
  show ?thesis
    using add dest at_d cmp at_c jmp len d(2) c(2) j(2)
    by (simp add: parseFields_def wr_terminator)
qed

section \<open>The second pass, line by line\<close>

lemma comp_code_NUL: "map_of compFieldLT m = Some c \<Longrightarrow> NUL \<notin> set c"
  by (auto simp: compFieldLT_def split: if_splits)

lemma dest_code_NUL: "map_of destFieldLT m = Some c \<Longrightarrow> NUL \<notin> set c"
  by (auto simp: destFieldLT_def split: if_splits)

lemma jump_code_NUL: "map_of jumpFieldLT m = Some c \<Longrightarrow> NUL \<notin> set c"
  by (auto simp: jumpFieldLT_def split: if_splits)

lemma bitChar_NUL: "bitChar addr k \<noteq> NUL" "NUL \<noteq> bitChar addr k"
  by (simp_all add: bitChar_eq)

lemma secondPassLoop_emit:
  assumes "lineParser oor line st = Some (st1, SYSTEM_SUCCESS)"
    and "bitFields (gInsFields st1) = w @ NUL # r" and "NUL \<notin> set w"
  shows "secondPassLoop oor (line # rest) st =
           secondPassLoop oor rest (varInit (st1\<lparr>opFile := opFile st1 @ w @ [LF]\<rparr>))"
proof -
  have "cstr_at (bitFields (gInsFields st1)) 0 = Some w"
    using cstr_at_append_NUL [of w "[]" r] assms(2,3) by simp
  then show ?thesis
    using assms(1) by (simp add: lineWriter_def)
qed

lemma secondPassLoop_skip:
  assumes "lineParser oor line st = Some (st1, SYSTEM_FAILURE)"
  shows "secondPassLoop oor (line # rest) st = secondPassLoop oor rest (varInit st1)"
  using assms by simp

lemma lineParser_address:
  assumes "rd line 0 = Some (CHR ''@'')"
  shows "lineParser oor line st =
     do { st1 \<leftarrow> parseAddress line st;
          (f, status) \<leftarrow> lineCommand oor (gInsFields st1);
          Some (st1\<lparr>gInsFields := f\<rparr>, status) }"
  using assms by (simp add: lineParser_def isComment_def)

lemma lineParser_fields:
  assumes "rd line 0 = Some c0" and "c0 \<noteq> CHR ''/''" and "c0 \<noteq> CR" and "c0 \<noteq> CHR ''@''" and "c0 \<noteq> CHR ''(''"
  shows "lineParser oor line st =
     do { f \<leftarrow> parseFields line (gInsFields st);
          (f, status) \<leftarrow> lineCommand oor f;
          Some (st\<lparr>gInsFields := f\<rparr>, status) }"
  using assms by (simp add: lineParser_def isComment_def)

lemma varInit_fields [simp]: "varInit (st\<lparr>gInsFields := f\<rparr>) = varInit st"
  by (simp add: varInit_def)

lemma varInit_opFile: "varInit (st\<lparr>opFile := out\<rparr>) = (varInit st)\<lparr>opFile := out\<rparr>"
  by (simp add: varInit_def)

lemma varInit_cleared: "gInsFields st = clearedFields \<Longrightarrow> varInit st = st"
  by (simp add: varInit_def)

lemma addrWord_eq:
  "addrWord addr = map (bitChar addr) [15, 14, 13, 12, 11, 10, 9, 8, 7, 6, 5, 4, 3, 2, 1, 0]"
  unfolding addrWord_def addrBits_cleared
  by (rule cstr_append_NUL) (simp add: bitChar_NUL)

lemma addrBits_addrWord: "addrBits addr (replicate 17 NUL) = addrWord addr @ [NUL]"
  by (simp add: addrWord_eq addrBits_cleared)

lemma addrWord_NUL: "NUL \<notin> set (addrWord addr)"
  by (simp add: addrWord_eq bitChar_NUL)

lemma digit_simps: "digit c \<Longrightarrow> c \<noteq> CR \<and> c \<noteq> NUL \<and> c \<noteq> INVALID_VALUE \<and> \<not> (of_char c :: nat) > of_char (CHR ''9'')"
  by (auto simp: digit_def)

lemma cleared_lengths:
  "length (destFldString clearedFields) = 5" "length (jmpFldString clearedFields) = 5"
  "length (cmpFldString clearedFields) = 5" "length (addFldString clearedFields) = 10"
  "length (bitFields clearedFields) = 17"
  by (simp_all add: clearedFields_def)

lemma asmLine_rd0: "rd (asmLine (c # l)) 0 = Some c"
  by (simp add: asmLine_eq rd_def)

lemma lineParser_literal:
  assumes st: "length (addFldString (gInsFields st)) = 10"
    and ds: "\<forall>c \<in> set ds. digit c" "ds \<noteq> []" "length ds \<le> 9" "decval ds \<le> 65535"
    and line: "line = CHR ''@'' # ds @ CR # rest"
  shows "lineParser oor line st =
     Some (st\<lparr>gInsFields := (gInsFields st)
             \<lparr>addFldString := ds @ NUL # drop (length ds + 1) (addFldString (gInsFields st)),
              bitFields := addrWord (decval ds) @ [NUL]\<rparr>\<rparr>, SYSTEM_SUCCESS)"
proof -
  let ?add = "ds @ NUL # drop (length ds + 1) (addFldString (gInsFields st))"
  let ?st1 = "st\<lparr>gInsFields := (gInsFields st)\<lparr>addFldString := ?add\<rparr>\<rparr>"
  have hd_ds: "hd (ds @ [CR]) = hd ds" "hd (ds @ [NUL]) = hd ds" "hd ds \<in> set ds"
    using ds(2) by simp_all
  have parse: "parseAddress line st = Some ?st1"
    using ds st hd_ds digit_simps by (intro parseAddress_literal [OF line]) auto
  have "addrLoop oor ([] @ ds @ NUL # drop (length ds + 1) (addFldString (gInsFields st)))
          (0 + length ds) 0 ((length ds + 255) mod 256) 0 = 0 + decval ds"
    using ds by (intro addrLoop_digits) (auto simp: mod_if)
  then have loop: "addrLoop oor ?add (length ds) 0 ((length ds + 255) mod 256) 0 = decval ds"
    by simp
  have "lineCommand oor (gInsFields ?st1) =
      Some ((gInsFields ?st1)\<lparr>bitFields := addrBits (addrLoop oor ?add (length ds) 0
                                     ((length ds + 255) mod 256) 0) (replicate 17 NUL)\<rparr>,
          SYSTEM_SUCCESS)"
    using ds hd_ds digit_simps by (intro lineCommand_addr) auto
  then have "lineCommand oor (gInsFields ?st1) =
      Some ((gInsFields ?st1)\<lparr>bitFields := addrWord (decval ds) @ [NUL]\<rparr>, SYSTEM_SUCCESS)"
    by (simp only: loop addrBits_addrWord)
  with parse show ?thesis
    by (simp add: lineParser_address line rd_def)
qed

lemma secondPassLoop_literal:
  assumes "gInsFields st = clearedFields"
    and ds: "\<forall>c \<in> set ds. digit c" "ds \<noteq> []" "length ds \<le> 9" "decval ds \<le> 65535"
  shows "secondPassLoop oor (asmLine (CHR ''@'' # ds) # rest) st =
           secondPassLoop oor rest (st\<lparr>opFile := opFile st @ addrWord (decval ds) @ [LF]\<rparr>)"
proof -
  have line: "asmLine (CHR ''@'' # ds) = CHR ''@'' # ds @ CR # LF # replicate (97 - length ds) NUL"
    by (simp add: asmLine_eq)
  note parsed = lineParser_literal [OF _ ds line, of st oor]
  show ?thesis
    by (subst secondPassLoop_emit [OF parsed, of "addrWord (decval ds)" "[]"])
       (simp_all add: assms(1) cleared_lengths addrWord_NUL varInit_opFile varInit_cleared)
qed

lemma dest_key:
  "map_of destFieldLT d = Some dc \<Longrightarrow>
     length d \<le> 3 \<and> (\<forall>x \<in> set d. x \<noteq> CHR ''='' \<and> x \<noteq> CHR '';'' \<and> x \<noteq> NUL) \<and>
     hd (d @ [CHR ''='']) \<notin> {CHR ''/'', CR, CHR ''@'', CHR ''(''}"
  by (auto simp: destFieldLT_def split: if_splits)

lemma comp_key:
  "map_of compFieldLT c = Some cc \<Longrightarrow>
     length c \<le> 3 \<and> (\<forall>x \<in> set c. x \<noteq> CHR ''='' \<and> x \<noteq> CHR '';'' \<and> x \<noteq> CR \<and> x \<noteq> NUL) \<and>
     hd (c @ [CHR '';'']) \<notin> {CHR ''/'', CR, CHR ''@'', CHR ''(''}"
  by (auto simp: compFieldLT_def split: if_splits)

lemma jump_key:
  "map_of jumpFieldLT j = Some jc \<Longrightarrow>
     length j \<le> 3 \<and> (\<forall>x \<in> set j. x \<noteq> CR \<and> x \<noteq> CHR '' '' \<and> x \<noteq> NUL)"
  by (auto simp: jumpFieldLT_def split: if_splits)

lemma jump_empty: "map_of jumpFieldLT [] = Some ''000''"
  by (simp add: jumpFieldLT_def)

lemma dest_empty: "map_of destFieldLT [] = Some ''000''"
  by (simp add: destFieldLT_def)

lemma lineParser_encode:
  assumes "rd line 0 = Some c0" and "c0 \<notin> {CHR ''/'', CR, CHR ''@'', CHR ''(''}"
    and "parseFields line (gInsFields st) = Some f"
    and "rd (addFldString f) 0 = Some INVALID_VALUE"
    and "map_of compFieldLT (cstr (cmpFldString f)) = Some cc"
    and "map_of destFieldLT (cstr (destFldString f)) = Some dc"
    and "map_of jumpFieldLT (cstr (jmpFldString f)) = Some jc"
  shows "lineParser oor line st =
     Some (st\<lparr>gInsFields := f\<lparr>bitFields := ''111'' @ cc @ dc @ jc @ [NUL]\<rparr>\<rparr>, SYSTEM_SUCCESS)"
  using assms lineCommand_comp [OF assms(4-7), of oor]
  by (simp add: lineParser_fields)

lemma secondPassLoop_dest_comp:
  assumes st: "gInsFields st = clearedFields"
    and d: "map_of destFieldLT d = Some dc" and c: "map_of compFieldLT c = Some cc"
  shows "secondPassLoop oor (asmLine (d @ CHR ''='' # c) # rest) st =
           secondPassLoop oor rest (st\<lparr>opFile := opFile st @ ''111'' @ cc @ dc @ ''000'' @ [LF]\<rparr>)"
proof -
  let ?line = "asmLine (d @ CHR ''='' # c)"
  let ?r = "LF # replicate (98 - length (d @ CHR ''='' # c)) NUL"
  let ?f = "clearedFields\<lparr>
      destFldString := d @ NUL # drop (length d + 1) (destFldString clearedFields),
      jmpFldString := NUL # drop 1 (jmpFldString clearedFields),
      cmpFldString := c @ NUL # drop (length c + 1) (cmpFldString clearedFields),
      addFldString := INVALID_VALUE # drop 1 (addFldString clearedFields)\<rparr>"
  note dk = dest_key [OF d] and ck = comp_key [OF c]
  have line: "?line = d @ CHR ''='' # c @ CR # ?r"
    by (simp add: asmLine_eq)
  have first: "rd ?line 0 = Some (hd (d @ [CHR ''='']))"
    unfolding line by (cases d) (simp_all add: rd_def)
  have fields: "parseFields ?line (gInsFields st) = Some ?f"
    unfolding st using dk ck by (intro parseFields_dest_comp [OF line]) (auto simp: cleared_lengths)
  have parsed: "lineParser oor ?line st =
      Some (st\<lparr>gInsFields := ?f\<lparr>bitFields := ''111'' @ cc @ dc @ ''000'' @ [NUL]\<rparr>\<rparr>, SYSTEM_SUCCESS)"
    using dk ck d c
    by (intro lineParser_encode [OF first _ fields])
       (auto simp: rd_def cstr_append_NUL cstr_def jump_empty)
  have codes: "NUL \<notin> set (''111'' @ cc @ dc @ ''000'')"
    using comp_code_NUL [OF c] dest_code_NUL [OF d] by simp
  show ?thesis
    by (subst secondPassLoop_emit [OF parsed _ codes, of "[]"])
       (simp_all add: st varInit_opFile varInit_cleared)
qed

lemma firstPassLine_instruction:
  assumes "rd line 0 = Some c0" and "c0 \<notin> {CHR ''/'', CR, CHR ''(''}"
  shows "firstPassLine line (st, n) = Some (st, (n + 1) mod 2 ^ 32)"
  using assms by (simp add: firstPassLine_def isComment_def)

lemma firstPassLine_comment:
  assumes "line = CHR ''/'' # CHR ''/'' # rest"
  shows "firstPassLine line (st, n) = Some (st, n)"
  using assms by (simp add: firstPassLine_def isComment_def rd_def)

lemma firstPassLine_blank:
  assumes "line = CR # rest"
  shows "firstPassLine line (st, n) = Some (st, n)"
  using assms by (simp add: firstPassLine_def isComment_def rd_def)

section \<open>The claims\<close>

lemma addrWord_2: "addrWord 2 = ''0000000000000010''"
  by (simp add: addrWord_eq bitChar_eq bit_0)

lemma addrWord_65535: "addrWord 65535 = ''1111111111111111''"
  by (simp add: addrWord_eq bitChar_eq bit_0)

lemma addrWord_24576: "addrWord 24576 = ''0110000000000000''"
  by (simp add: addrWord_eq bitChar_eq bit_0)

text \<open>
  Claim C1. The two passes over the six lines \<^verbatim>\<open>@2\<close>, \<^verbatim>\<open>D=A\<close>, \<^verbatim>\<open>@3\<close>, \<^verbatim>\<open>D=D+A\<close>, \<^verbatim>\<open>@0\<close>, \<^verbatim>\<open>M=D\<close>,
  each ended by CR LF, write exactly the six lines \<^verbatim>\<open>0000000000000010\<close>, \<^verbatim>\<open>1110110000010000\<close>,
  \<^verbatim>\<open>0000000000000011\<close>, \<^verbatim>\<open>1110000010010000\<close>, \<^verbatim>\<open>0000000000000000\<close>, \<^verbatim>\<open>1110001100001000\<close> to the
  output file, in this order, each ended by a line feed.
\<close>
theorem end_to_end_example:
  "assemble oor (crlf_file [''@2'', ''D=A'', ''@3'', ''D=D+A'', ''@0'', ''M=D'']) =
     Some (concat (map (\<lambda>w. w @ [LF])
       [''0000000000000010'', ''1110110000010000'', ''0000000000000011'',
        ''1110000010010000'', ''0000000000000000'', ''1110001100001000'']))"
proof -
  let ?ls = "[''@2'', ''D=A'', ''@3'', ''D=D+A'', ''@0'', ''M=D'']"
  have buffers: "fgets_all (crlf_file ?ls) = map asmLine ?ls"
    by (rule fgets_all_crlf_file) simp
  have one: "firstPassLoop (map asmLine ?ls) (initState, 0) = Some (initState, 6)"
    by (simp add: firstPassLine_instruction asmLine_rd0)
  note c1 = secondPassLoop_dest_comp [where d = "''D''" and dc = "''010''" and c = "''A''" and cc = "''0110000''",
    unfolded append.simps]
  note c2 = secondPassLoop_dest_comp [where d = "''D''" and dc = "''010''" and c = "''D+A''" and cc = "''0000010''",
    unfolded append.simps]
  note c3 = secondPassLoop_dest_comp [where d = "''M''" and dc = "''001''" and c = "''D''" and cc = "''0001100''",
    unfolded append.simps]
  have two: "secondPassLoop oor (map asmLine ?ls) initState =
      Some (initState\<lparr>opFile := concat (map (\<lambda>w. w @ [LF])
       [''0000000000000010'', ''1110110000010000'', ''0000000000000011'',
        ''1110000010010000'', ''0000000000000000'', ''1110001100001000''])\<rparr>)"
    by (simp add: secondPassLoop_literal c1 c2 c3 initState_def digit_def decval_def
        destFieldLT_def compFieldLT_def addrWord_eq bitChar_eq bit_0 del: secondPassLoop.simps(2))
  have first: "firstPass (crlf_file ?ls) initState = Some initState"
    unfolding firstPass_def buffers one by simp
  have second: "secondPass oor (crlf_file ?ls) initState =
      Some (initState\<lparr>opFile := concat (map (\<lambda>w. w @ [LF])
       [''0000000000000010'', ''1110110000010000'', ''0000000000000011'',
        ''1110000010010000'', ''0000000000000000'', ''1110001100001000''])\<rparr>)"
    unfolding secondPass_def buffers by (rule two)
  show ?thesis
    by (simp add: assemble_def first second)
qed

lemma table_keys_distinct:
  "distinct (map fst compFieldLT)" "distinct (map fst destFieldLT)" "distinct (map fst jumpFieldLT)"
  by (simp_all add: compFieldLT_def destFieldLT_def jumpFieldLT_def)

lemma table_sizes:
  "length compFieldLT = 28" "length destFieldLT = 8" "length jumpFieldLT = 8"
  by (simp_all add: compFieldLT_def destFieldLT_def jumpFieldLT_def)

text \<open>
  Claim C2. Let the operation field hold a mnemonic \<open>m\<close> of \<open>compFieldLT\<close>, the destination
  field a mnemonic \<open>d\<close> of \<open>destFieldLT\<close> and the jump field a mnemonic \<open>j\<close> of \<open>jumpFieldLT\<close> (the
  empty mnemonics included), in a computation-form instruction (\<^verbatim>\<open>addFldString[0]\<close> is
  \<^verbatim>\<open>INVALID_VALUE\<close>). Then \<open>lineCommand\<close> succeeds, and the word it leaves in \<^verbatim>\<open>bitFields\<close> is
  \<^verbatim>\<open>111\<close>, then the seven bits the table gives for \<open>m\<close>, then the three bits it gives for \<open>d\<close>,
  then the three bits it gives for \<open>j\<close>: sixteen characters. The tables have 28, 8 and 8
  entries with distinct mnemonics (\<open>table_sizes\<close>, \<open>table_keys_distinct\<close>).
\<close>
theorem encode_table_entries:
  assumes "(m, c) \<in> set compFieldLT" and "(d, dc) \<in> set destFieldLT" and "(j, jc) \<in> set jumpFieldLT"
    and "rd (addFldString f) 0 = Some INVALID_VALUE"
    and "cstr (cmpFldString f) = m" and "cstr (destFldString f) = d" and "cstr (jmpFldString f) = j"
  shows "lineCommand oor f = Some (f\<lparr>bitFields := ''111'' @ c @ dc @ jc @ [NUL]\<rparr>, SYSTEM_SUCCESS)
    \<and> cstr (''111'' @ c @ dc @ jc @ [NUL]) = ''111'' @ c @ dc @ jc
    \<and> length c = COMP_FIELD_LEN \<and> length dc = DEST_FIELD_LEN \<and> length jc = JUMP_FIELD_LEN
    \<and> length (''111'' @ c @ dc @ jc) = BITFIELD_MAX"
proof -
  have c: "map_of compFieldLT (cstr (cmpFldString f)) = Some c"
    using assms(1,5) table_keys_distinct(1) by simp
  have d: "map_of destFieldLT (cstr (destFldString f)) = Some dc"
    using assms(2,6) table_keys_distinct(2) by simp
  have j: "map_of jumpFieldLT (cstr (jmpFldString f)) = Some jc"
    using assms(3,7) table_keys_distinct(3) by simp
  have "NUL \<notin> set (''111'' @ c @ dc @ jc)"
    using comp_code_NUL [OF c] dest_code_NUL [OF d] jump_code_NUL [OF j] by simp
  then have "cstr ((''111'' @ c @ dc @ jc) @ NUL # []) = ''111'' @ c @ dc @ jc"
    by (rule cstr_append_NUL)
  then show ?thesis
    using lineCommand_comp [OF assms(4) c d j, of oor]
      comp_code_length [OF c] dest_code_length [OF d] jump_code_length [OF j]
    by simp
qed

theorem encode_table_entries_witness:
  "(''D+A'', ''0000010'') \<in> set compFieldLT \<and> (''AMD'', ''111'') \<in> set destFieldLT
   \<and> (''JGT'', ''001'') \<in> set jumpFieldLT
   \<and> lineCommand (\<lambda>x. 0)
        (clearedFields\<lparr>destFldString := ''AMD'' @ [NUL, NUL], jmpFldString := ''JGT'' @ [NUL, NUL],
                        cmpFldString := ''D+A'' @ [NUL, NUL],
                        addFldString := replicate 10 INVALID_VALUE\<rparr>)
     = Some (clearedFields\<lparr>destFldString := ''AMD'' @ [NUL, NUL], jmpFldString := ''JGT'' @ [NUL, NUL],
                        cmpFldString := ''D+A'' @ [NUL, NUL],
                        addFldString := replicate 10 INVALID_VALUE,
                        bitFields := ''1110000010111001'' @ [NUL]\<rparr>, SYSTEM_SUCCESS)"
  using encode_table_entries [of "''D+A''" "''0000010''" "''AMD''" "''111''" "''JGT''" "''001''"
      "clearedFields\<lparr>destFldString := ''AMD'' @ [NUL, NUL], jmpFldString := ''JGT'' @ [NUL, NUL],
                        cmpFldString := ''D+A'' @ [NUL, NUL],
                        addFldString := replicate 10 INVALID_VALUE\<rparr>" "\<lambda>x. 0"]
  by (simp add: compFieldLT_def destFieldLT_def jumpFieldLT_def rd_def cstr_def)

lemma parseFields_invalid:
  assumes "parseFields line f0 = Some f"
  shows "rd (addFldString f) 0 = Some INVALID_VALUE"
proof -
  from assms obtain add where add: "wr (addFldString f0) 0 INVALID_VALUE = Some add"
    and f: "addFldString f = add"
    by (auto simp: parseFields_def split: bind_splits if_splits prod.splits)
  from add have "rd add 0 = Some INVALID_VALUE"
    by (auto simp: wr_def rd_def split: if_splits)
  with f show ?thesis by simp
qed

lemma lineCommand_reject:
  assumes "rd (addFldString f) 0 = Some INVALID_VALUE"
    and "map_of compFieldLT (cstr (cmpFldString f)) = None
       \<or> map_of destFieldLT (cstr (destFldString f)) = None
       \<or> map_of jumpFieldLT (cstr (jmpFldString f)) = None"
  shows "\<exists>b. lineCommand oor f = Some (f\<lparr>bitFields := b\<rparr>, SYSTEM_FAILURE)"
proof (cases "map_of compFieldLT (cstr (cmpFldString f))")
  case None
  with assms(1) show ?thesis
    by (auto simp: lineCommand_def scanTable_map_of)
next
  case (Some c)
  note c = comp_code_length [OF Some]
  show ?thesis
  proof (cases "map_of destFieldLT (cstr (destFldString f))")
    case None
    with assms(1) Some c show ?thesis
      by (auto simp: lineCommand_def scanTable_map_of pad_ones strcpy_def)
  next
    case d: (Some d)
    with assms(2) Some have "map_of jumpFieldLT (cstr (jmpFldString f)) = None"
      by simp
    with assms(1) Some c d dest_code_length [OF d] show ?thesis
      by (auto simp: lineCommand_def scanTable_map_of pad_ones strcpy_def)
  qed
qed

lemma lineParser_computation:
  assumes "isComment line = Some False" and "rd line 0 = Some c0"
    and "c0 \<noteq> CR" and "c0 \<noteq> CHR ''@''" and "c0 \<noteq> CHR ''(''"
  shows "lineParser oor line st =
     do { f \<leftarrow> parseFields line (gInsFields st);
          (f, status) \<leftarrow> lineCommand oor f;
          Some (st\<lparr>gInsFields := f\<rparr>, status) }"
  using assms by (simp add: lineParser_def)

text \<open>
  A computation-form line (no comment, not blank, not starting with \<^verbatim>\<open>@\<close> or \<^verbatim>\<open>(\<close>) whose fields
  the parser has stored and in which the text of the operation, destination or jump field has
  no equal mnemonic in its table: \<open>lineParser\<close> returns \<^verbatim>\<open>SYSTEM_FAILURE\<close>, having changed nothing
  but \<^verbatim>\<open>gInsFields\<close>; \<open>lineWriter\<close> is not called, and the second pass goes on with the following
  lines from the state it had before the line, with the fields cleared. The parser does store
  the fields, with the texts they have in the line, for every line of the forms \<^verbatim>\<open>d=c\<close>, \<^verbatim>\<open>c;j\<close>
  and \<^verbatim>\<open>d=c;j\<close> whose texts \<open>d\<close>, \<open>c\<close> and \<open>j\<close> have at most four bytes each, the length the field
  arrays have room for.
\<close>
lemma unmatched_field_skipped:
  assumes "isComment line = Some False" and "rd line 0 = Some c0"
    and "c0 \<noteq> CR" and "c0 \<noteq> CHR ''@''" and "c0 \<noteq> CHR ''(''"
  shows "(\<forall>f. parseFields line (gInsFields st) = Some f \<and>
            (cstr (cmpFldString f) \<notin> fst ` set compFieldLT
             \<or> cstr (destFldString f) \<notin> fst ` set destFieldLT
             \<or> cstr (jmpFldString f) \<notin> fst ` set jumpFieldLT) \<longrightarrow>
          (\<exists>b. lineParser oor line st = Some (st\<lparr>gInsFields := f\<lparr>bitFields := b\<rparr>\<rparr>, SYSTEM_FAILURE))
          \<and> secondPassLoop oor (line # rest) st = secondPassLoop oor rest (varInit st))
    \<and> opFile (varInit st) = opFile st \<and> gSymbolTable (varInit st) = gSymbolTable st
    \<and> currMemory (varInit st) = currMemory st \<and> gInsFields (varInit st) = clearedFields
    \<and> (\<forall>d c r. gInsFields st = clearedFields \<and> line = d @ CHR ''='' # c @ CR # r
          \<and> length d < 5 \<and> length c < 5
          \<and> set d \<inter> {CHR ''='', CHR '';'', NUL} = {} \<and> set c \<inter> {CHR '';'', CR, NUL} = {} \<longrightarrow>
          (\<exists>f. parseFields line (gInsFields st) = Some f \<and> cstr (destFldString f) = d
             \<and> cstr (cmpFldString f) = c \<and> cstr (jmpFldString f) = []))
    \<and> (\<forall>c j t r. gInsFields st = clearedFields \<and> line = c @ CHR '';'' # j @ t # r
          \<and> length c < 5 \<and> length j < 5 \<and> (t = CR \<or> t = CHR '' '')
          \<and> set c \<inter> {CHR ''='', CHR '';'', CR, NUL} = {} \<and> set j \<inter> {CR, CHR '' '', NUL} = {} \<longrightarrow>
          (\<exists>f. parseFields line (gInsFields st) = Some f \<and> cstr (destFldString f) = []
             \<and> cstr (cmpFldString f) = c \<and> cstr (jmpFldString f) = j))
    \<and> (\<forall>d c j t r. gInsFields st = clearedFields \<and> line = d @ CHR ''='' # c @ CHR '';'' # j @ t # r
          \<and> length d < 5 \<and> length c < 5 \<and> length j < 5 \<and> (t = CR \<or> t = CHR '' '')
          \<and> set d \<inter> {CHR ''='', CHR '';'', NUL} = {} \<and> set c \<inter> {CHR '';'', CR, NUL} = {}
          \<and> set j \<inter> {CR, CHR '' '', NUL} = {} \<longrightarrow>
          (\<exists>f. parseFields line (gInsFields st) = Some f \<and> cstr (destFldString f) = d
             \<and> cstr (cmpFldString f) = c \<and> cstr (jmpFldString f) = j))"
    (is "?skip \<and> ?o \<and> ?t \<and> ?m \<and> ?g \<and> ?dc \<and> ?cj \<and> ?dcj")
proof -
  have skip: ?skip
  proof (intro allI impI, elim conjE)
    fix f
    assume parse: "parseFields line (gInsFields st) = Some f"
      and unmatched: "cstr (cmpFldString f) \<notin> fst ` set compFieldLT
             \<or> cstr (destFldString f) \<notin> fst ` set destFieldLT
             \<or> cstr (jmpFldString f) \<notin> fst ` set jumpFieldLT"
    have "map_of compFieldLT (cstr (cmpFldString f)) = None
         \<or> map_of destFieldLT (cstr (destFldString f)) = None
         \<or> map_of jumpFieldLT (cstr (jmpFldString f)) = None"
      using unmatched by (simp add: map_of_eq_None_iff)
    then obtain b where "lineCommand oor f = Some (f\<lparr>bitFields := b\<rparr>, SYSTEM_FAILURE)"
      using lineCommand_reject [OF parseFields_invalid [OF parse]] by blast
    then have parsed: "lineParser oor line st = Some (st\<lparr>gInsFields := f\<lparr>bitFields := b\<rparr>\<rparr>, SYSTEM_FAILURE)"
      using parse by (simp add: lineParser_computation [OF assms(1-5)])
    then have "secondPassLoop oor (line # rest) st = secondPassLoop oor rest (varInit st)"
      by (simp add: secondPassLoop_skip)
    with parsed show "(\<exists>b. lineParser oor line st = Some (st\<lparr>gInsFields := f\<lparr>bitFields := b\<rparr>\<rparr>, SYSTEM_FAILURE))
          \<and> secondPassLoop oor (line # rest) st = secondPassLoop oor rest (varInit st)"
      by blast
  qed
  have init: ?o ?t ?m ?g
    by (simp_all add: varInit_def)
  have dc: ?dc
  proof (intro allI impI, elim conjE)
    fix d c r
    assume st: "gInsFields st = clearedFields" and line: "line = d @ CHR ''='' # c @ CR # r"
      and len: "length d < 5" "length c < 5"
      and d: "set d \<inter> {CHR ''='', CHR '';'', NUL} = {}" and c: "set c \<inter> {CHR '';'', CR, NUL} = {}"
    have "parseFields line clearedFields = Some (clearedFields\<lparr>
        destFldString := d @ NUL # drop (length d + 1) (destFldString clearedFields),
        jmpFldString := NUL # drop 1 (jmpFldString clearedFields),
        cmpFldString := c @ NUL # drop (length c + 1) (cmpFldString clearedFields),
        addFldString := INVALID_VALUE # drop 1 (addFldString clearedFields)\<rparr>)"
      using line len d c by (intro parseFields_dest_comp) (auto simp: cleared_lengths)
    moreover have "cstr (d @ NUL # ys) = d" "cstr (c @ NUL # ys) = c" "cstr (NUL # ys) = []" for ys
      using d c cstr_append_NUL [of d ys] cstr_append_NUL [of c ys] by (auto simp: cstr_def)
    ultimately show "\<exists>f. parseFields line (gInsFields st) = Some f \<and> cstr (destFldString f) = d
             \<and> cstr (cmpFldString f) = c \<and> cstr (jmpFldString f) = []"
      by (simp add: st)
  qed
  have cj: ?cj
  proof (intro allI impI, elim conjE)
    fix c j t r
    assume st: "gInsFields st = clearedFields" and line: "line = c @ CHR '';'' # j @ t # r"
      and len: "length c < 5" "length j < 5" and t: "t = CR \<or> t = CHR '' ''"
      and c: "set c \<inter> {CHR ''='', CHR '';'', CR, NUL} = {}" and j: "set j \<inter> {CR, CHR '' '', NUL} = {}"
    have "parseFields line clearedFields = Some (clearedFields\<lparr>
        destFldString := replicate 5 NUL,
        jmpFldString := j @ NUL # drop (length j + 1) (jmpFldString clearedFields),
        cmpFldString := c @ NUL # drop (length c + 1) (cmpFldString clearedFields),
        addFldString := INVALID_VALUE # drop 1 (addFldString clearedFields)\<rparr>)"
      using line len c j t by (intro parseFields_comp_jump) (auto simp: cleared_lengths)
    moreover have "cstr (j @ NUL # ys) = j" "cstr (c @ NUL # ys) = c" "cstr (replicate 5 NUL) = []" for ys
      using j c cstr_append_NUL [of j ys] cstr_append_NUL [of c ys] by (auto simp: cstr_def)
    ultimately show "\<exists>f. parseFields line (gInsFields st) = Some f \<and> cstr (destFldString f) = []
             \<and> cstr (cmpFldString f) = c \<and> cstr (jmpFldString f) = j"
      by (simp add: st)
  qed
  have dcj: ?dcj
  proof (intro allI impI, elim conjE)
    fix d c j t r
    assume st: "gInsFields st = clearedFields"
      and line: "line = d @ CHR ''='' # c @ CHR '';'' # j @ t # r"
      and len: "length d < 5" "length c < 5" "length j < 5" and t: "t = CR \<or> t = CHR '' ''"
      and d: "set d \<inter> {CHR ''='', CHR '';'', NUL} = {}" and c: "set c \<inter> {CHR '';'', CR, NUL} = {}"
      and j: "set j \<inter> {CR, CHR '' '', NUL} = {}"
    have "parseFields line clearedFields = Some (clearedFields\<lparr>
        destFldString := d @ NUL # drop (length d + 1) (destFldString clearedFields),
        jmpFldString := j @ NUL # drop (length j + 1) (jmpFldString clearedFields),
        cmpFldString := c @ NUL # drop (length c + 1) (cmpFldString clearedFields),
        addFldString := INVALID_VALUE # drop 1 (addFldString clearedFields)\<rparr>)"
      using line len d c j t by (intro parseFields_dest_comp_jump) (auto simp: cleared_lengths)
    moreover have "cstr (d @ NUL # ys) = d" "cstr (c @ NUL # ys) = c" "cstr (j @ NUL # ys) = j" for ys
      using d c j cstr_append_NUL [of d ys] cstr_append_NUL [of c ys] cstr_append_NUL [of j ys]
      by auto
    ultimately show "\<exists>f. parseFields line (gInsFields st) = Some f \<and> cstr (destFldString f) = d
             \<and> cstr (cmpFldString f) = c \<and> cstr (jmpFldString f) = j"
      by (simp add: st)
  qed
  from skip init dc cj dcj show ?thesis
    by (intro conjI)
qed

lemma copyUntil_result:
  "copyUntil stop line p fld i = Some (fld', p', i') \<Longrightarrow>
     i \<le> i' \<and> length fld' = length fld \<and> (\<forall>k < i. fld' ! k = fld ! k) \<and>
     (i < i' \<longrightarrow> fld' ! i = line ! p \<and> \<not> stop (line ! p)) \<and> p' < length line \<and> stop (line ! p')"
proof (induction stop line p fld i rule: copyUntil.induct)
  case (1 stop line ptr fld index)
  show ?case
  proof (cases "ptr < length line \<and> \<not> stop (line ! ptr) \<and> index < length fld")
    case True
    with "1.prems" have rec: "copyUntil stop line (ptr + 1) (fld[index := line ! ptr]) (index + 1) = Some (fld', p', i')"
      by (subst (asm) copyUntil.simps) simp
    from "1.IH" [OF _ _ _ rec] True
    have ih: "index + 1 \<le> i'" "length fld' = length fld"
      "\<forall>k < index + 1. fld' ! k = (fld[index := line ! ptr]) ! k" "p' < length line" "stop (line ! p')"
      by simp_all
    from ih(3) True have "fld' ! index = line ! ptr" "\<forall>k < index. fld' ! k = fld ! k"
      by simp_all
    with ih True show ?thesis by simp
  next
    case False
    with "1.prems" show ?thesis
      by (subst (asm) copyUntil.simps) (auto split: if_splits)
  qed
qed

lemma decDigits_digit: "c \<in> set (decDigits v) \<Longrightarrow> digit c"
proof (induction v rule: decDigits.induct)
  case (1 v)
  show ?case
  proof (cases "v = 0")
    case True
    with "1.prems" show ?thesis by (simp add: decDigits.simps)
  next
    case False
    have "v mod 10 + 48 < 256" by simp
    then have "of_char (char_of (v mod 10 + 48)) = v mod 10 + 48"
      by (simp add: of_char_of)
    then have "digit (char_of (v mod 10 + 48))"
      by (simp add: digit_def)
    with False "1.prems" "1.IH" show ?thesis
      by (subst (asm) decDigits.simps) auto
  qed
qed

lemma searchSymbolEntry_address:
  assumes "searchSymbolEntry s st = Some st1"
  shows "\<exists>a. rd (addFldString (gInsFields st1)) 0 = Some a \<and> a \<noteq> INVALID_VALUE \<and>
            NUL \<in> set (addFldString (gInsFields st1))"
proof -
  from assms obtain add v where "strcpy add 0 (rev (decDigits v)) = Some (addFldString (gInsFields st1))"
    by (auto simp: searchSymbolEntry_def Let_def split: if_splits bind_splits option.splits)
  then have add: "addFldString (gInsFields st1) = rev (decDigits v) @ NUL # drop (length (decDigits v) + 1) add"
    by (auto simp: strcpy_def split: if_splits)
  show ?thesis
  proof (cases "rev (decDigits v)")
    case Nil
    with add show ?thesis by (simp add: rd_def)
  next
    case (Cons a as)
    then have "a \<in> set (decDigits v)"
      by (metis list.set_intros(1) set_rev)
    then have "a \<noteq> INVALID_VALUE"
      using decDigits_digit digit_simps by blast
    with add Cons show ?thesis by (simp add: rd_def)
  qed
qed

lemma parseAddress_address:
  assumes "parseAddress line st = Some st1"
  shows "\<exists>a. rd (addFldString (gInsFields st1)) 0 = Some a \<and> a \<noteq> INVALID_VALUE \<and>
            NUL \<in> set (addFldString (gInsFields st1))"
proof -
  from assms obtain c where c: "rd line 1 = Some c"
    by (auto simp: parseAddress_def split: bind_splits)
  show ?thesis
  proof (cases "(of_char c :: nat) > of_char (CHR ''9'')")
    case True
    with assms c obtain s where "searchSymbolEntry s st = Some st1"
      by (auto simp: parseAddress_def split: bind_splits)
    then show ?thesis by (rule searchSymbolEntry_address)
  next
    case False
    with assms c obtain add p i where copy: "copyUntil (\<lambda>c. c = CR) line 1 (addFldString (gInsFields st)) 0 = Some (add, p, i)"
      and w: "wr add i NUL = Some (addFldString (gInsFields st1))"
      by (auto simp: parseAddress_def split: bind_splits)
    from w have i: "i < length add" and add1: "addFldString (gInsFields st1) = add[i := NUL]"
      by (auto simp: wr_def split: if_splits)
    from c have line1: "line ! 1 = c"
      by (auto simp: rd_def split: if_splits)
    have "(add[i := NUL]) ! 0 \<noteq> INVALID_VALUE"
    proof (cases "i = 0")
      case True
      with i show ?thesis by simp
    next
      case False
      with copyUntil_result [OF copy] line1 have "add ! 0 = c"
        by simp
      moreover have "c \<noteq> INVALID_VALUE"
        using \<open>\<not> (of_char c :: nat) > of_char (CHR ''9'')\<close> by auto
      ultimately show ?thesis
        using False by simp
    qed
    moreover have "NUL \<in> set (add[i := NUL])"
      using i by (simp add: set_update_memI)
    moreover have "0 < length (add[i := NUL])"
      using i by auto
    ultimately show ?thesis
      unfolding add1 rd_def by simp
  qed
qed

lemma addrWord_shape:
  "length (addrWord addr) = BITFIELD_MAX" "set (addrWord addr) \<subseteq> {CHR ''0'', CHR ''1''}"
  by (auto simp: addrWord_eq bitChar_eq)

lemma lineCommand_address_any:
  assumes "rd (addFldString f) 0 = Some a" and "a \<noteq> INVALID_VALUE"
    and "NUL \<in> set (addFldString f)"
  shows "\<exists>addr. lineCommand oor f = Some (f\<lparr>bitFields := addrWord addr @ [NUL]\<rparr>, SYSTEM_SUCCESS)"
proof -
  have "strlen (addFldString f) = Some (length (cstr (addFldString f)))"
    using assms(3) by (simp add: strlen_def cstr_at_def)
  then have "lineCommand oor f =
      Some (f\<lparr>bitFields := addrWord (addrLoop oor (addFldString f) (length (cstr (addFldString f))) 0
                 ((length (cstr (addFldString f)) + 255) mod 256) 0) @ [NUL]\<rparr>, SYSTEM_SUCCESS)"
    using assms(1,2) by (simp add: lineCommand_def addrBits_addrWord)
  then show ?thesis ..
qed

lemma addrWord_hd: "n < 32768 \<Longrightarrow> hd (addrWord n) = CHR ''0''"
  by (simp add: addrWord_eq bitChar_eq bit_iff_odd)

lemma binval_addrWord: "n < 65536 \<Longrightarrow> binval (addrWord n) = n"
  by (simp only: addrWord_eq binval_bits)

text \<open>
  Claim C5. Let the operand \<open>ds\<close> of a line \<^verbatim>\<open>@ds\<close> be a string of at most nine decimal digits
  that denotes a number \<open>n\<close> from 0 to 32767. Then the line is encoded with success, and the
  word \<open>w\<close> written has sixteen characters \<^verbatim>\<open>0\<close> and \<^verbatim>\<open>1\<close>, denotes \<open>n\<close> in binary with the most
  significant bit first, and starts with \<^verbatim>\<open>0\<close>.
\<close>
theorem literal_address_encoding:
  assumes "\<forall>c \<in> set ds. digit c" and "ds \<noteq> []" and "length ds \<le> 9"
    and "decval ds = n" and "n \<le> 32767"
    and "length (addFldString (gInsFields st)) = 10"
    and "line = CHR ''@'' # ds @ CR # r"
  shows "\<exists>st' w. lineParser oor line st = Some (st', SYSTEM_SUCCESS)
      \<and> bitFields (gInsFields st') = w @ [NUL]
      \<and> secondPassLoop oor (line # rest) st =
          secondPassLoop oor rest (varInit (st\<lparr>opFile := opFile st @ w @ [LF]\<rparr>))
      \<and> length w = 16 \<and> set w \<subseteq> {CHR ''0'', CHR ''1''} \<and> binval w = n \<and> hd w = CHR ''0''"
proof -
  let ?st' = "st\<lparr>gInsFields := (gInsFields st)
             \<lparr>addFldString := ds @ NUL # drop (length ds + 1) (addFldString (gInsFields st)),
              bitFields := addrWord (decval ds) @ [NUL]\<rparr>\<rparr>"
  have parsed: "lineParser oor line st = Some (?st', SYSTEM_SUCCESS)"
    using assms by (intro lineParser_literal) simp_all
  have "secondPassLoop oor (line # rest) st =
      secondPassLoop oor rest (varInit (?st'\<lparr>opFile := opFile ?st' @ addrWord (decval ds) @ [LF]\<rparr>))"
    by (rule secondPassLoop_emit [OF parsed, of _ "[]"]) (simp_all add: addrWord_NUL)
  then have emit: "secondPassLoop oor (line # rest) st =
      secondPassLoop oor rest (varInit (st\<lparr>opFile := opFile st @ addrWord n @ [LF]\<rparr>))"
    by (simp add: varInit_def assms(4))
  have "length (addrWord n) = 16" "set (addrWord n) \<subseteq> {CHR ''0'', CHR ''1''}"
    "binval (addrWord n) = n" "hd (addrWord n) = CHR ''0''"
    using assms(5) by (simp_all add: addrWord_shape binval_addrWord addrWord_hd)
  with parsed emit assms(4) show ?thesis
    by (intro exI [of _ ?st'] exI [of _ "addrWord n"]) simp
qed

theorem literal_address_encoding_witness:
  "list_all digit ''32767'' \<and> decval ''32767'' = 32767
   \<and> lineParser (\<lambda>x. 0) (asmLine ''@32767'') initState =
       Some (initState\<lparr>gInsFields := clearedFields
               \<lparr>addFldString := ''32767'' @ NUL # replicate 4 INVALID_VALUE,
                bitFields := ''0111111111111111'' @ [NUL]\<rparr>\<rparr>, SYSTEM_SUCCESS)
   \<and> binval ''0111111111111111'' = 32767"
proof -
  have digits: "\<forall>c \<in> set ''32767''. digit c" and val: "decval ''32767'' = 32767"
    by (simp_all add: digit_def decval_def)
  from literal_address_encoding [OF digits _ _ val, of initState "asmLine ''@32767''"
      "LF # replicate 92 NUL" "\<lambda>x. 0" "[]"]
  obtain st' w where "lineParser (\<lambda>x. 0) (asmLine ''@32767'') initState = Some (st', SYSTEM_SUCCESS)"
    and "binval w = 32767"
    by (auto simp: initState_def clearedFields_def asmLine_eq)
  moreover have "lineParser (\<lambda>x. 0) (asmLine ''@32767'') initState =
       Some (initState\<lparr>gInsFields := clearedFields
               \<lparr>addFldString := ''32767'' @ NUL # replicate 4 INVALID_VALUE,
                bitFields := ''0111111111111111'' @ [NUL]\<rparr>\<rparr>, SYSTEM_SUCCESS)"
    using lineParser_literal [OF _ digits _ _ _, of initState "asmLine ''@32767''" "LF # replicate 92 NUL" "\<lambda>x. 0"]
    by (simp add: val initState_def clearedFields_def asmLine_eq addrWord_eq bitChar_eq bit_0)
  moreover have "binval ''0111111111111111'' = 32767"
    by (simp add: binval_def)
  ultimately show ?thesis
    using digits val by (simp add: list_all_iff)
qed

lemma decDigits_16: "decDigits 16 = ''61''"
  by (simp add: decDigits.simps char_of_def bit_0)

text \<open>
  Claim C7, at the line \<^verbatim>\<open>@$tmp\<close>. The operand starts with \<^verbatim>\<open>$\<close>, which is no decimal digit, but
  its byte is below \<^verbatim>\<open>'9'\<close>: the parser copies the operand to \<^verbatim>\<open>addFldString\<close> as a literal and
  leaves the symbol table as it is. \<open>searchSymbolEntry\<close> on the same operand would have
  allocated the variable at 16, as the parser does for \<^verbatim>\<open>@_tmp\<close>.
\<close>
theorem dollar_symbol_taken_as_literal:
  "parseAddress (asmLine ''@$tmp'') initState =
     Some (initState\<lparr>gInsFields := clearedFields
             \<lparr>addFldString := ''$tmp'' @ NUL # replicate 5 INVALID_VALUE\<rparr>\<rparr>)
   \<and> searchSymbolEntry (''$tmp'' @ [CR, LF]) initState =
     Some (initState\<lparr>gSymbolTable := initSymbolTable @ [(''$tmp'', 16)], currMemory := 17,
             gInsFields := clearedFields\<lparr>addFldString := ''16'' @ NUL # replicate 7 INVALID_VALUE\<rparr>\<rparr>)
   \<and> parseAddress (asmLine ''@_tmp'') initState =
     Some (initState\<lparr>gSymbolTable := initSymbolTable @ [(''_tmp'', 16)], currMemory := 17,
             gInsFields := clearedFields\<lparr>addFldString := ''16'' @ NUL # replicate 7 INVALID_VALUE\<rparr>\<rparr>)"
proof (intro conjI)
  show "parseAddress (asmLine ''@$tmp'') initState =
     Some (initState\<lparr>gInsFields := clearedFields
             \<lparr>addFldString := ''$tmp'' @ NUL # replicate 5 INVALID_VALUE\<rparr>\<rparr>)"
    using parseAddress_literal [of "asmLine ''@$tmp''" "''$tmp''" "LF # replicate 93 NUL" initState]
    by (simp add: asmLine_eq initState_def clearedFields_def)
  have new: "map_of (gSymbolTable initState) ''$tmp'' = None" "map_of (gSymbolTable initState) ''_tmp'' = None"
    by (simp_all add: initState_def initSymbolTable_def)
  show "searchSymbolEntry (''$tmp'' @ [CR, LF]) initState =
     Some (initState\<lparr>gSymbolTable := initSymbolTable @ [(''$tmp'', 16)], currMemory := 17,
             gInsFields := clearedFields\<lparr>addFldString := ''16'' @ NUL # replicate 7 INVALID_VALUE\<rparr>\<rparr>)"
    using searchSymbolEntry_new [OF new(1), of CR LF]
    by (simp add: initState_def clearedFields_def initSymbolTable_def decDigits_16)
  have "parseAddress (asmLine ''@_tmp'') initState = searchSymbolEntry (''_tmp'' @ [CR, LF]) initState"
    using parseAddress_symbol [of "asmLine ''@_tmp''" "''_tmp'' @ [CR, LF]" "replicate 92 NUL" initState]
    by (simp add: asmLine_eq replicate_Suc [symmetric] del: replicate_Suc)
  then show "parseAddress (asmLine ''@_tmp'') initState =
     Some (initState\<lparr>gSymbolTable := initSymbolTable @ [(''_tmp'', 16)], currMemory := 17,
             gInsFields := clearedFields\<lparr>addFldString := ''16'' @ NUL # replicate 7 INVALID_VALUE\<rparr>\<rparr>)"
    using searchSymbolEntry_new [OF new(2), of CR LF]
    by (simp add: initState_def clearedFields_def initSymbolTable_def decDigits_16)
qed

text \<open>
  Claim C8, at the line \<^verbatim>\<open>D+1\<close>. The line buffer of 100 bytes holds neither \<^verbatim>\<open>=\<close> nor \<^verbatim>\<open>;\<close>, the
  only bytes that end the first loop of the field parser: the loop leaves the buffer (after
  it has left \<^verbatim>\<open>destFldString\<close>), and the parser yields no fields.
\<close>
theorem bare_operation_overruns:
  "length (asmLine ''D+1'') = LINEBUFFER_SIZE
   \<and> CHR ''='' \<notin> set (asmLine ''D+1'') \<and> CHR '';'' \<notin> set (asmLine ''D+1'')
   \<and> parseFields (asmLine ''D+1'') clearedFields = None
   \<and> lineParser oor (asmLine ''D+1'') initState = None"
proof -
  have len: "length (asmLine ''D+1'') = LINEBUFFER_SIZE"
    and absent: "CHR ''='' \<notin> set (asmLine ''D+1'')" "CHR '';'' \<notin> set (asmLine ''D+1'')"
    by (simp_all add: asmLine_eq)
  have "copyUntil (\<lambda>c. c = CHR ''='' \<or> c = CHR '';'') (asmLine ''D+1'') 0 fld 0 = None" for fld
    using absent by (intro copyUntil_never) (metis nth_mem)
  then have fields: "parseFields (asmLine ''D+1'') clearedFields = None"
    by (simp add: parseFields_def)
  have "isComment (asmLine ''D+1'') = Some False" "rd (asmLine ''D+1'') 0 = Some (CHR ''D'')"
    by (simp_all add: isComment_def asmLine_eq rd_def)
  then have "lineParser oor (asmLine ''D+1'') initState = None"
    using fields by (simp add: lineParser_computation initState_def)
  with len absent fields show ?thesis
    by simp
qed

lemma tableStep_fields [simp]: "tableStep st (st'\<lparr>gInsFields := f\<rparr>) = tableStep st st'"
  by (simp add: tableStep_def)

lemma tableStep_refl [simp]: "tableStep st st"
  by (simp add: tableStep_def)

lemma searchSymbolEntry_table:
  assumes "searchSymbolEntry s st = Some st'"
  shows "tableStep st st'"
proof (cases "map_of (gSymbolTable st) (take (length s - 2) s)")
  case None
  with assms show ?thesis
    by (auto simp: searchSymbolEntry_def scanTable_map_of Let_def tableStep_def
        split: if_splits bind_splits)
next
  case (Some v)
  with assms show ?thesis
    by (auto simp: searchSymbolEntry_def scanTable_map_of Let_def tableStep_def
        split: if_splits bind_splits)
qed

lemma parseAddress_table:
  assumes "parseAddress line st = Some st'"
  shows "tableStep st st'"
proof -
  from assms obtain c where c: "rd line 1 = Some c"
    by (auto simp: parseAddress_def split: bind_splits)
  show ?thesis
  proof (cases "(of_char c :: nat) > of_char (CHR ''9'')")
    case True
    with assms c obtain s where "searchSymbolEntry s st = Some st'"
      by (auto simp: parseAddress_def split: bind_splits)
    then show ?thesis by (rule searchSymbolEntry_table)
  next
    case False
    with assms c show ?thesis
      by (auto simp: parseAddress_def split: bind_splits)
  qed
qed

lemma parseLabel_table:
  assumes "parseLabel line st = Some st'"
  shows "tableStep st st'"
proof -
  from assms obtain s where "searchSymbolEntry s st = Some st'"
    by (auto simp: parseLabel_def split: bind_splits)
  then show ?thesis by (rule searchSymbolEntry_table)
qed

lemma lineParser_table:
  assumes "lineParser oor line st = Some (st', status)"
  shows "tableStep st st'"
proof -
  from assms obtain comment c0 where c: "isComment line = Some comment" "rd line 0 = Some c0"
    by (auto simp: lineParser_def split: bind_splits)
  consider "comment \<or> c0 = CR" | "\<not> comment" "c0 \<noteq> CR" "c0 = CHR ''@''"
    | "\<not> comment" "c0 \<noteq> CR" "c0 \<noteq> CHR ''@''" "c0 = CHR ''(''"
    | "\<not> comment" "c0 \<noteq> CR" "c0 \<noteq> CHR ''@''" "c0 \<noteq> CHR ''(''"
    by blast
  then show ?thesis
  proof cases
    case 1
    with assms c show ?thesis
      by (auto simp: lineParser_def split: if_splits)
  next
    case 2
    with assms c obtain st1 where "parseAddress line st = Some st1" and "\<exists>f. st' = st1\<lparr>gInsFields := f\<rparr>"
      by (auto simp: lineParser_def split: bind_splits)
    with parseAddress_table show ?thesis
      by auto
  next
    case 3
    with assms c have "parseLabel line st = Some st'"
      by (auto simp: lineParser_def split: bind_splits)
    then show ?thesis by (rule parseLabel_table)
  next
    case 4
    with assms c have "\<exists>f. st' = st\<lparr>gInsFields := f\<rparr>"
      by (auto simp: lineParser_def split: bind_splits)
    then show ?thesis by auto
  qed
qed

lemma secondPass_step_table:
  assumes "lineParser oor line st = Some (st1, status)"
    and "(if status = SYSTEM_SUCCESS then lineWriter st1 else Some st1) = Some st2"
  shows "gSymbolTable (varInit st2) = gSymbolTable st1" "currMemory (varInit st2) = currMemory st1"
    "gInsFields (varInit st2) = clearedFields"
  using assms by (auto simp: varInit_def lineWriter_def split: if_splits bind_splits)

lemma decval_snoc: "decval (xs @ [c]) = 10 * decval xs + (of_char c - 48)"
  by (simp add: decval_def)

lemma decval_decDigits: "decval (rev (decDigits v)) = v"
proof (induction v rule: decDigits.induct)
  case (1 v)
  show ?case
  proof (cases "v = 0")
    case True
    then show ?thesis by (simp add: decDigits.simps decval_Nil)
  next
    case False
    have "v mod 10 + 48 < 256" by simp
    then have "(of_char (char_of (v mod 10 + 48)) :: nat) = v mod 10 + 48"
      by (simp add: of_char_of)
    with False "1.IH" show ?thesis
      by (subst decDigits.simps) (simp add: decval_snoc)
  qed
qed

lemma length_decDigits: "v < 10 ^ k \<Longrightarrow> length (decDigits v) \<le> k"
proof (induction k arbitrary: v)
  case 0
  then show ?case by (simp add: decDigits.simps)
next
  case (Suc k)
  show ?case
  proof (cases "v = 0")
    case True
    then show ?thesis by (simp add: decDigits.simps)
  next
    case False
    from Suc.prems have "v div 10 < 10 ^ k"
      by (simp add: less_mult_imp_div_less mult.commute)
    from Suc.IH [OF this] False show ?thesis
      by (subst decDigits.simps) simp
  qed
qed

lemma length_decDigits_u16: "v \<le> 65535 \<Longrightarrow> length (decDigits v) \<le> 5"
  using length_decDigits [of v 5] by simp

lemma decDigits_NUL: "NUL \<notin> set (decDigits v)"
  using decDigits_digit digit_simps by blast

lemma lineCommand_resolved:
  assumes "addFldString f = rev (decDigits v) @ NUL # r" and "v \<le> 65535"
  shows "lineCommand oor f = Some (f\<lparr>bitFields := addrWord v @ [NUL]\<rparr>, SYSTEM_SUCCESS)"
proof -
  let ?ds = "rev (decDigits v)"
  have digits: "\<forall>c \<in> set ?ds. digit c"
    using decDigits_digit by simp
  have len: "length ?ds \<le> 5"
    using length_decDigits_u16 [OF assms(2)] by simp
  have "hd (?ds @ [NUL]) \<noteq> INVALID_VALUE"
  proof (cases ?ds)
    case Nil
    then show ?thesis by simp
  next
    case (Cons a as)
    then have "a \<in> set ?ds" by simp
    with digits digit_simps Cons show ?thesis by auto
  qed
  then have cmd: "lineCommand oor f =
    Some (f\<lparr>bitFields := addrBits (addrLoop oor (?ds @ NUL # r) (length ?ds) 0
                                     ((length ?ds + 255) mod 256) 0) (replicate 17 NUL)\<rparr>,
          SYSTEM_SUCCESS)"
    using decDigits_NUL [of v] by (intro lineCommand_addr [OF assms(1)]) simp_all
  have "addrLoop oor ([] @ ?ds @ NUL # r) (0 + length ?ds) 0 ((length ?ds + 255) mod 256) 0 = 0 + decval ?ds"
    using digits len assms(2) by (intro addrLoop_digits) (auto simp: mod_if decval_decDigits)
  then have "addrLoop oor (?ds @ NUL # r) (length ?ds) 0 ((length ?ds + 255) mod 256) 0 = v"
    by (simp add: decval_decDigits)
  with cmd show ?thesis
    by (simp only: addrBits_addrWord)
qed

lemma asmLine_symbol:
  assumes "NUL \<notin> set name" and "length name \<le> 96"
    and "(of_char (hd (name @ [CR])) :: nat) > of_char (CHR ''9'')"
  shows "parseAddress (asmLine (CHR ''@'' # name)) st = searchSymbolEntry (name @ [CR, LF]) st"
proof -
  have "asmLine (CHR ''@'' # name) = CHR ''@'' # (name @ [CR, LF]) @ NUL # replicate (96 - length name) NUL"
    using assms(2) by (simp add: asmLine_eq replicate_Suc [symmetric] Suc_diff_le del: replicate_Suc)
  moreover have "hd ((name @ [CR, LF]) @ [NUL]) = hd (name @ [CR])"
    by (cases name) simp_all
  ultimately show ?thesis
    using assms by (intro parseAddress_symbol) auto
qed

lemma secondPassLoop_symbol:
  assumes st: "gInsFields st = clearedFields"
    and name: "NUL \<notin> set name" "length name \<le> 96"
      "(of_char (hd (name @ [CR])) :: nat) > of_char (CHR ''9'')"
    and v: "map_of (gSymbolTable st) name = Some v" "v \<le> 65535"
  shows "secondPassLoop oor (asmLine (CHR ''@'' # name) # rest) st =
           secondPassLoop oor rest (st\<lparr>opFile := opFile st @ addrWord v @ [LF]\<rparr>)"
proof -
  let ?add = "rev (decDigits v) @ NUL # drop (length (decDigits v) + 1) (addFldString (gInsFields st))"
  let ?st1 = "st\<lparr>gInsFields := (gInsFields st)\<lparr>addFldString := ?add\<rparr>\<rparr>"
  have "searchSymbolEntry (name @ [CR, LF]) st = Some ?st1"
    using name(2) length_decDigits_u16 [OF v(2)]
    by (intro searchSymbolEntry_found [OF v(1)]) (simp_all add: st cleared_lengths)
  then have parse: "parseAddress (asmLine (CHR ''@'' # name)) st = Some ?st1"
    by (simp add: asmLine_symbol [OF name])
  have "lineCommand oor (gInsFields ?st1) =
      Some ((gInsFields ?st1)\<lparr>bitFields := addrWord v @ [NUL]\<rparr>, SYSTEM_SUCCESS)"
    by (rule lineCommand_resolved [OF _ v(2)]) simp
  with parse have parsed: "lineParser oor (asmLine (CHR ''@'' # name)) st =
      Some (?st1\<lparr>gInsFields := (gInsFields ?st1)\<lparr>bitFields := addrWord v @ [NUL]\<rparr>\<rparr>, SYSTEM_SUCCESS)"
    by (simp add: lineParser_address asmLine_rd0)
  show ?thesis
    by (subst secondPassLoop_emit [OF parsed, of "addrWord v" "[]"])
       (simp_all add: st addrWord_NUL varInit_opFile varInit_cleared)
qed

lemma secondPassLoop_variable:
  assumes st: "gInsFields st = clearedFields"
    and name: "NUL \<notin> set name" "length name \<le> 96"
      "(of_char (hd (name @ [CR])) :: nat) > of_char (CHR ''9'')"
    and new: "map_of (gSymbolTable st) name = None" "length (gSymbolTable st) < SYMBOLTABLE_SIZE"
    and cm: "currMemory st \<le> 65535"
  shows "secondPassLoop oor (asmLine (CHR ''@'' # name) # rest) st =
           secondPassLoop oor rest
             (st\<lparr>gSymbolTable := gSymbolTable st @ [(name, currMemory st)],
                 currMemory := currMemory st + 1,
                 opFile := opFile st @ addrWord (currMemory st) @ [LF]\<rparr>)"
proof -
  let ?v = "currMemory st"
  let ?add = "rev (decDigits ?v) @ NUL # drop (length (decDigits ?v) + 1) (addFldString (gInsFields st))"
  let ?st1 = "st\<lparr>gSymbolTable := gSymbolTable st @ [(name, ?v)],
              currMemory := (?v + 1) mod 2 ^ 32,
              gInsFields := (gInsFields st)\<lparr>addFldString := ?add\<rparr>\<rparr>"
  have "searchSymbolEntry (name @ [CR, LF]) st = Some ?st1"
    using name(2) length_decDigits_u16 [OF cm]
    by (intro searchSymbolEntry_new [OF new(1) _ new(2)]) (simp_all add: st cleared_lengths)
  then have parse: "parseAddress (asmLine (CHR ''@'' # name)) st = Some ?st1"
    by (simp add: asmLine_symbol [OF name])
  have "lineCommand oor (gInsFields ?st1) =
      Some ((gInsFields ?st1)\<lparr>bitFields := addrWord ?v @ [NUL]\<rparr>, SYSTEM_SUCCESS)"
    by (rule lineCommand_resolved [OF _ cm]) simp
  with parse have parsed: "lineParser oor (asmLine (CHR ''@'' # name)) st =
      Some (?st1\<lparr>gInsFields := (gInsFields ?st1)\<lparr>bitFields := addrWord ?v @ [NUL]\<rparr>\<rparr>, SYSTEM_SUCCESS)"
    by (simp add: lineParser_address asmLine_rd0)
  have step: "secondPassLoop oor (asmLine (CHR ''@'' # name) # rest) st =
      secondPassLoop oor rest (varInit
        (?st1\<lparr>gInsFields := (gInsFields ?st1)\<lparr>bitFields := addrWord ?v @ [NUL]\<rparr>,
               opFile := opFile st @ addrWord ?v @ [LF]\<rparr>))"
    using secondPassLoop_emit [OF parsed, of "addrWord ?v" "[]" rest] by (simp add: addrWord_NUL)
  have "varInit (?st1\<lparr>gInsFields := (gInsFields ?st1)\<lparr>bitFields := addrWord ?v @ [NUL]\<rparr>,
               opFile := opFile st @ addrWord ?v @ [LF]\<rparr>) =
      st\<lparr>gSymbolTable := gSymbolTable st @ [(name, currMemory st)],
                 currMemory := currMemory st + 1,
                 opFile := opFile st @ addrWord (currMemory st) @ [LF]\<rparr>"
    using st cm by (cases st) (simp add: varInit_def)
  with step show ?thesis
    by simp
qed

lemma upt_Suc_shift: "map f [0..<Suc n] = f 0 # map (\<lambda>k. f (Suc k)) [0..<n]"
proof -
  have "[0..<Suc n] = 0 # map Suc [0..<n]"
    by (simp add: upt_conv_Cons map_Suc_upt del: upt_Suc)
  then show ?thesis
    by (simp add: comp_def del: upt_Suc)
qed

lemma secondPassLoop_allocations:
  assumes "secondPassLoop oor ls st = Some st'" and "currMemory st < 2 ^ 32"
  shows "\<exists>vars. distinct vars \<and> (\<forall>x \<in> set vars. map_of (gSymbolTable st) x = None)
     \<and> gSymbolTable st' =
         gSymbolTable st @ zip vars (map (\<lambda>k. (currMemory st + k) mod 2 ^ 32) [0..<length vars])
     \<and> currMemory st' = (currMemory st + length vars) mod 2 ^ 32
     \<and> (vars \<noteq> [] \<longrightarrow> length (gSymbolTable st') \<le> SYMBOLTABLE_SIZE)
     \<and> (ls \<noteq> [] \<longrightarrow> gInsFields st' = clearedFields)"
  using assms
proof (induction ls arbitrary: st)
  case Nil
  then show ?case
    by (intro exI [of _ "[]"]) simp
next
  case (Cons line rest)
  from Cons.prems(1) obtain st1 status st2
    where parsed: "lineParser oor line st = Some (st1, status)"
      and written: "(if status = SYSTEM_SUCCESS then lineWriter st1 else Some st1) = Some st2"
      and run: "secondPassLoop oor rest (varInit st2) = Some st'"
    by (auto split: bind_splits)
  let ?st3 = "varInit st2"
  note same = secondPass_step_table [OF parsed written]
  from lineParser_table [OF parsed]
  consider (unchanged) "gSymbolTable st1 = gSymbolTable st" "currMemory st1 = currMemory st"
    | (appended) name where "map_of (gSymbolTable st) name = None"
        "length (gSymbolTable st) < SYMBOLTABLE_SIZE"
        "gSymbolTable st1 = gSymbolTable st @ [(name, currMemory st)]"
        "currMemory st1 = (currMemory st + 1) mod 2 ^ 32"
    by (auto simp: tableStep_def)
  then show ?case
  proof cases
    case unchanged
    with same Cons.prems(2) have "currMemory ?st3 < 2 ^ 32"
      by simp
    from Cons.IH [OF run this] obtain vars where
      "distinct vars" "\<forall>x \<in> set vars. map_of (gSymbolTable ?st3) x = None"
      "gSymbolTable st' = gSymbolTable ?st3 @
          zip vars (map (\<lambda>k. (currMemory ?st3 + k) mod 2 ^ 32) [0..<length vars])"
      "currMemory st' = (currMemory ?st3 + length vars) mod 2 ^ 32"
      "vars \<noteq> [] \<longrightarrow> length (gSymbolTable st') \<le> SYMBOLTABLE_SIZE"
      "rest \<noteq> [] \<longrightarrow> gInsFields st' = clearedFields"
      by blast
    moreover have "rest = [] \<longrightarrow> st' = ?st3"
      using run by auto
    ultimately show ?thesis
      using same unchanged by (intro exI [of _ vars]) auto
  next
    case appended
    let ?c = "currMemory st"
    have "currMemory ?st3 < 2 ^ 32"
      using same appended by simp
    from Cons.IH [OF run this] obtain vars where vars:
      "distinct vars" "\<forall>x \<in> set vars. map_of (gSymbolTable ?st3) x = None"
      "gSymbolTable st' = gSymbolTable ?st3 @
          zip vars (map (\<lambda>k. (currMemory ?st3 + k) mod 2 ^ 32) [0..<length vars])"
      "currMemory st' = (currMemory ?st3 + length vars) mod 2 ^ 32"
      "vars \<noteq> [] \<longrightarrow> length (gSymbolTable st') \<le> SYMBOLTABLE_SIZE"
      "rest \<noteq> [] \<longrightarrow> gInsFields st' = clearedFields"
      by blast
    have tbl3: "gSymbolTable ?st3 = gSymbolTable st @ [(name, ?c)]"
      and cm3: "currMemory ?st3 = (?c + 1) mod 2 ^ 32"
      using same appended by simp_all
    have fresh: "\<forall>x \<in> set vars. map_of (gSymbolTable st) x = None \<and> x \<noteq> name"
      using vars(2) unfolding tbl3 by (auto simp: map_add_def split: option.splits if_splits)
    have shift: "((?c + 1) mod 2 ^ 32 + k) mod 2 ^ 32 = (?c + Suc k) mod 2 ^ 32" for k
      by (simp add: mod_add_left_eq)
    have "map (\<lambda>k. (?c + k) mod 2 ^ 32) [0..<Suc (length vars)] =
        ?c # map (\<lambda>k. ((?c + 1) mod 2 ^ 32 + k) mod 2 ^ 32) [0..<length vars]"
      unfolding upt_Suc_shift shift using Cons.prems(2) by simp
    then have "zip (name # vars) (map (\<lambda>k. (?c + k) mod 2 ^ 32) [0..<length (name # vars)]) =
        (name, ?c) # zip vars (map (\<lambda>k. ((?c + 1) mod 2 ^ 32 + k) mod 2 ^ 32) [0..<length vars])"
      by (simp only: length_Cons zip_Cons_Cons)
    then have tbl: "gSymbolTable st' = gSymbolTable st @
        zip (name # vars) (map (\<lambda>k. (?c + k) mod 2 ^ 32) [0..<length (name # vars)])"
      using vars(3) by (simp add: tbl3 cm3)
    have cm: "currMemory st' = (?c + length (name # vars)) mod 2 ^ 32"
      unfolding vars(4) cm3 shift by simp
    have len: "length (gSymbolTable st') \<le> SYMBOLTABLE_SIZE"
    proof (cases "vars = []")
      case True
      with vars(3) tbl3 appended(2) show ?thesis by simp
    next
      case False
      with vars(5) show ?thesis by simp
    qed
    have fields: "gInsFields st' = clearedFields"
    proof (cases "rest = []")
      case True
      with run same show ?thesis by auto
    next
      case False
      with vars(6) show ?thesis by simp
    qed
    show ?thesis
      using vars(1) fresh appended(1) tbl cm len fields
      by (intro exI [of _ "name # vars"]) auto
  qed
qed

lemma secondPassLoop_append:
  "secondPassLoop oor (xs @ ys) st = secondPassLoop oor xs st \<bind> secondPassLoop oor ys"
  by (induction xs arbitrary: st) (simp_all split: bind_splits prod.splits)

text \<open>
  Let the second pass have processed any lines \<open>ls\<close>, from a state with \<^verbatim>\<open>currMemory\<close> 16 and
  cleared fields (as the first pass leaves it). Then the entries it has appended to the symbol
  table are distinct new names \<open>vars\<close> with the addresses 16, 17, ... in the order of their
  insertion, and \<^verbatim>\<open>currMemory\<close> is the next address. A following line \<^verbatim>\<open>@name\<close>, whose name starts
  with a byte above \<^verbatim>\<open>9\<close>, gets the next address \<open>16 + length vars\<close> when the name is not in the
  table (the entry is appended, and the word of this address is written); when the name is in
  the table, the word of its stored value is written and neither the table nor \<^verbatim>\<open>currMemory\<close>
  changes.
\<close>
lemma variables_in_order:
  assumes run: "secondPassLoop oor ls st0 = Some st"
    and st0: "currMemory st0 = CURR_MEMORY" "gInsFields st0 = clearedFields"
      "SYMBOLTABLE_TAIL \<le> length (gSymbolTable st0)"
    and name: "NUL \<notin> set name" "length name \<le> 96"
      "(of_char (hd (name @ [CR])) :: nat) > of_char (CHR ''9'')"
  shows "\<exists>vars. distinct vars \<and> (\<forall>x \<in> set vars. map_of (gSymbolTable st0) x = None)
     \<and> gSymbolTable st = gSymbolTable st0 @ zip vars [16 ..< 16 + length vars]
     \<and> currMemory st = 16 + length vars
     \<and> (map_of (gSymbolTable st) name = None \<and> length (gSymbolTable st) < SYMBOLTABLE_SIZE \<longrightarrow>
          secondPassLoop oor (asmLine (CHR ''@'' # name) # rest) st =
            secondPassLoop oor rest
              (st\<lparr>gSymbolTable := gSymbolTable st @ [(name, 16 + length vars)],
                  currMemory := 17 + length vars,
                  opFile := opFile st @ addrWord (16 + length vars) @ [LF]\<rparr>))
     \<and> (\<forall>v. map_of (gSymbolTable st) name = Some v \<and> v \<le> 65535 \<longrightarrow>
          secondPassLoop oor (asmLine (CHR ''@'' # name) # rest) st =
            secondPassLoop oor rest (st\<lparr>opFile := opFile st @ addrWord v @ [LF]\<rparr>))"
proof -
  have "currMemory st0 < 2 ^ 32"
    using st0(1) by simp
  from secondPassLoop_allocations [OF run this, unfolded st0(1)] obtain vars where vars:
    "distinct vars" "\<forall>x \<in> set vars. map_of (gSymbolTable st0) x = None"
    "gSymbolTable st = gSymbolTable st0 @ zip vars (map (\<lambda>k. (16 + k) mod 2 ^ 32) [0..<length vars])"
    "currMemory st = (16 + length vars) mod 2 ^ 32"
    "vars \<noteq> [] \<longrightarrow> length (gSymbolTable st) \<le> SYMBOLTABLE_SIZE"
    "ls \<noteq> [] \<longrightarrow> gInsFields st = clearedFields"
    by blast
  have few: "length vars \<le> SYMBOLTABLE_SIZE"
  proof (cases "vars = []")
    case True
    then show ?thesis by simp
  next
    case False
    with vars(5) have "length (gSymbolTable st) \<le> SYMBOLTABLE_SIZE" by simp
    then show ?thesis
      unfolding vars(3) by simp
  qed
  have "map (\<lambda>k. (16 + k) mod 2 ^ 32) [0..<length vars] = map (\<lambda>k. k + 16) [0..<length vars]"
    using few by (intro map_cong) auto
  also have "\<dots> = [16 ..< 16 + length vars]"
    by (simp add: map_add_upt add.commute)
  finally have tbl: "gSymbolTable st = gSymbolTable st0 @ zip vars [16 ..< 16 + length vars]"
    using vars(3) by simp
  have cm: "currMemory st = 16 + length vars"
    using vars(4) few by simp
  have fields: "gInsFields st = clearedFields"
  proof (cases "ls = []")
    case True
    with run st0(2) show ?thesis by simp
  next
    case False
    with vars(6) show ?thesis by simp
  qed
  have new: "secondPassLoop oor (asmLine (CHR ''@'' # name) # rest) st =
            secondPassLoop oor rest
              (st\<lparr>gSymbolTable := gSymbolTable st @ [(name, 16 + length vars)],
                  currMemory := 17 + length vars,
                  opFile := opFile st @ addrWord (16 + length vars) @ [LF]\<rparr>)"
    if "map_of (gSymbolTable st) name = None" "length (gSymbolTable st) < SYMBOLTABLE_SIZE"
  proof -
    have "length (gSymbolTable st0) + length vars < SYMBOLTABLE_SIZE"
      using that(2) few unfolding tbl by simp
    then have "currMemory st \<le> 65535"
      using st0(3) cm by simp
    from secondPassLoop_variable [OF fields name that this, of oor rest] show ?thesis
      by (simp add: cm)
  qed
  have old: "secondPassLoop oor (asmLine (CHR ''@'' # name) # rest) st =
            secondPassLoop oor rest (st\<lparr>opFile := opFile st @ addrWord v @ [LF]\<rparr>)"
    if "map_of (gSymbolTable st) name = Some v" "v \<le> 65535" for v
    using that by (rule secondPassLoop_symbol [OF fields name])
  show ?thesis
    using vars(1,2) tbl cm new old by (intro exI [of _ vars]) blast
qed

lemma cstr_append_NUL_any: "cstr (xs @ NUL # ys) = cstr xs"
  by (induction xs) (simp_all add: cstr_def)

lemma firstPassLine_label:
  assumes line: "line = CHR ''('' # name @ CHR '')'' # r"
    and name: "CHR '')'' \<notin> set name" "length name \<le> 98"
    and room: "length (gSymbolTable st) < SYMBOLTABLE_SIZE"
  shows "firstPassLine line (st, n) =
           Some (st\<lparr>gSymbolTable := gSymbolTable st @ [(cstr name, n)]\<rparr>, n)"
proof -
  let ?k = "98 - length name"
  have "LINEBUFFER_SIZE = length name + Suc (Suc ?k)"
    using name(2) by simp
  then have zeros: "replicate LINEBUFFER_SIZE NUL = replicate (length name) NUL @ NUL # NUL # replicate ?k NUL"
    by (simp only: replicate_add replicate_Suc)
  have "copyUntil (\<lambda>c. c = CHR '')'') ([CHR ''(''] @ name @ CHR '')'' # r) 1 (replicate LINEBUFFER_SIZE NUL) 0 =
      Some (name @ drop (length name) (replicate LINEBUFFER_SIZE NUL), length [CHR ''(''] + length name, length name)"
    using name by (intro copyUntil_from) auto
  then have copy: "copyUntil (\<lambda>c. c = CHR '')'') line 1 (replicate LINEBUFFER_SIZE NUL) 0 =
      Some (name @ NUL # NUL # replicate ?k NUL, 1 + length name, length name)"
    unfolding zeros by (simp add: line)
  have "wr ((name @ [NUL]) @ NUL # replicate ?k NUL) (length (name @ [NUL])) NUL =
      Some ((name @ [NUL]) @ NUL # replicate ?k NUL)"
    by (rule wr_after)
  then have nul: "wr (name @ NUL # NUL # replicate ?k NUL) (1 + length name) NUL =
      Some (name @ NUL # NUL # replicate ?k NUL)"
    by simp
  have "isComment line = Some False" "rd line 0 = Some (CHR ''('')"
    by (simp_all add: isComment_def line rd_def)
  with copy nul room show ?thesis
    by (simp add: firstPassLine_def cstr_append_NUL_any)
qed

lemma label_shape:
  assumes "isLabelLine l" and "CHR '')'' \<in> set l"
  shows "\<exists>r. l = CHR ''('' # takeWhile (\<lambda>c. c \<noteq> CHR '')'') (tl l) @ CHR '')'' # r"
proof -
  from assms(1) obtain t where l: "l = CHR ''('' # t"
    by (cases l) (auto simp: isLabelLine_def)
  with assms(2) have "CHR '')'' \<in> set t" by simp
  then have "dropWhile (\<lambda>c. c \<noteq> CHR '')'') t \<noteq> []"
    by (simp add: dropWhile_eq_Nil_conv)
  then obtain y r where d: "dropWhile (\<lambda>c. c \<noteq> CHR '')'') t = y # r"
    by (cases "dropWhile (\<lambda>c. c \<noteq> CHR '')'') t") auto
  then have "y = CHR '')''"
    using hd_dropWhile [of "\<lambda>c. c \<noteq> CHR '')''" t] by force
  with d have "t = takeWhile (\<lambda>c. c \<noteq> CHR '')'') t @ CHR '')'' # r"
    using takeWhile_dropWhile_id [of "\<lambda>c. c \<noteq> CHR '')''" t] by simp
  with l show ?thesis by auto
qed

lemma firstPassLine_isLabel:
  assumes "isLabelLine l" and "CHR '')'' \<in> set l" and "length l \<le> LINEBUFFER_SIZE"
    and "length (gSymbolTable st) < SYMBOLTABLE_SIZE"
  shows "firstPassLine l (st, n) =
           Some (st\<lparr>gSymbolTable := gSymbolTable st @ [(labelName l, n)]\<rparr>, n)"
proof -
  let ?name = "takeWhile (\<lambda>c. c \<noteq> CHR '')'') (tl l)"
  from label_shape [OF assms(1,2)] obtain r where l: "l = CHR ''('' # ?name @ CHR '')'' # r"
    by blast
  have "length l = 2 + length ?name + length r"
    by (subst l) simp
  with assms(3) have "length ?name \<le> 98" by simp
  moreover have "CHR '')'' \<notin> set ?name"
    by (auto dest: set_takeWhileD)
  ultimately show ?thesis
    unfolding labelName_def by (intro firstPassLine_label [OF l _ _ assms(4)])
qed

lemma firstPassLine_isSkipped:
  assumes "isCommentLine l \<or> isBlankLine l"
  shows "firstPassLine l (st, n) = Some (st, n)"
proof -
  from assms consider r where "l = CHR ''/'' # CHR ''/'' # r" | r where "l = CR # r"
    by (cases l; cases "tl l") (auto simp: isCommentLine_def isBlankLine_def)
  then show ?thesis
    by cases (simp_all add: firstPassLine_comment firstPassLine_blank)
qed

lemma firstPassLine_isInstruction:
  assumes "isInstructionLine l" and "2 \<le> length l"
  shows "firstPassLine l (st, n) = Some (st, (n + 1) mod 2 ^ 32)"
proof -
  from assms(2) obtain a b r where l: "l = a # b # r"
    by (cases l; cases "tl l") auto
  with assms(1) show ?thesis
    by (auto simp: firstPassLine_def isComment_def rd_def isInstructionLine_def isCommentLine_def
        isBlankLine_def isLabelLine_def)
qed

lemma firstPassLoop_append:
  "firstPassLoop (xs @ ys) sl = firstPassLoop xs sl \<bind> firstPassLoop ys"
  by (induction xs arbitrary: sl) (simp_all split: bind_splits)

lemma labelEntries_snoc:
  "labelEntries (ls @ [l]) =
     labelEntries ls @ (if isLabelLine l then [(labelName l, length (filter isInstructionLine ls))] else [])"
proof -
  have "filter (\<lambda>i. isLabelLine ((ls @ [l]) ! i)) [0..<length ls] =
      filter (\<lambda>i. isLabelLine (ls ! i)) [0..<length ls]"
    by (intro filter_cong) (auto simp: nth_append)
  moreover have "map (\<lambda>i. (labelName ((ls @ [l]) ! i), length (filter isInstructionLine (take i (ls @ [l])))))
        (filter (\<lambda>i. isLabelLine (ls ! i)) [0..<length ls]) =
      map (\<lambda>i. (labelName (ls ! i), length (filter isInstructionLine (take i ls))))
        (filter (\<lambda>i. isLabelLine (ls ! i)) [0..<length ls])"
    by (intro map_cong) (auto simp: nth_append)
  ultimately show ?thesis
    by (simp add: labelEntries_def)
qed

lemma length_labelEntries: "length (labelEntries ls) = length (filter isLabelLine ls)"
  by (induction ls rule: rev_induct) (simp_all add: labelEntries_snoc, simp add: labelEntries_def)

lemma skipped_not_label:
  "isCommentLine l \<or> isBlankLine l \<Longrightarrow> \<not> isLabelLine l \<and> \<not> isInstructionLine l"
  by (cases l) (auto simp: isCommentLine_def isBlankLine_def isLabelLine_def isInstructionLine_def)

lemma label_not_instruction: "isLabelLine l \<Longrightarrow> \<not> isInstructionLine l"
  by (simp add: isInstructionLine_def)

lemma firstPassLoop_labels:
  assumes "\<forall>l \<in> set ls. 2 \<le> length l \<and> length l \<le> LINEBUFFER_SIZE \<and> (isLabelLine l \<longrightarrow> CHR '')'' \<in> set l)"
    and "length (gSymbolTable st) + length (filter isLabelLine ls) \<le> SYMBOLTABLE_SIZE"
    and "length (filter isInstructionLine ls) < 2 ^ 32"
  shows "firstPassLoop ls (st, 0) =
     Some (st\<lparr>gSymbolTable := gSymbolTable st @ labelEntries ls\<rparr>, length (filter isInstructionLine ls))"
  using assms
proof (induction ls rule: rev_induct)
  case Nil
  show ?case by (simp add: labelEntries_def)
next
  case (snoc l ls)
  let ?c = "length (filter isInstructionLine ls)"
  let ?st1 = "st\<lparr>gSymbolTable := gSymbolTable st @ labelEntries ls\<rparr>"
  have l: "2 \<le> length l" "length l \<le> LINEBUFFER_SIZE" "isLabelLine l \<longrightarrow> CHR '')'' \<in> set l"
    using snoc.prems(1) by simp_all
  have "firstPassLoop ls (st, 0) = Some (?st1, ?c)"
    using snoc.prems by (intro snoc.IH) auto
  moreover have "firstPassLoop [l] sl = firstPassLine l sl" for sl
    by (cases "firstPassLine l sl") simp_all
  ultimately have run: "firstPassLoop (ls @ [l]) (st, 0) = firstPassLine l (?st1, ?c)"
    by (simp add: firstPassLoop_append del: firstPassLoop.simps)
  consider (skipped) "isCommentLine l \<or> isBlankLine l" | (label) "isLabelLine l"
    | (instruction) "isInstructionLine l"
    by (auto simp: isInstructionLine_def)
  then show ?case
  proof cases
    case skipped
    with skipped_not_label [OF skipped] show ?thesis
      by (simp add: run firstPassLine_isSkipped labelEntries_snoc)
  next
    case label
    have "length (gSymbolTable ?st1) < SYMBOLTABLE_SIZE"
      using snoc.prems(2) label by (simp add: length_labelEntries)
    from firstPassLine_isLabel [OF label _ l(2) this, of ?c] l(3) label label_not_instruction [OF label]
    show ?thesis
      by (simp add: run labelEntries_snoc)
  next
    case instruction
    then have "\<not> isLabelLine l"
      by (simp add: isInstructionLine_def)
    moreover have "(?c + 1) mod 2 ^ 32 = ?c + 1"
      using snoc.prems(3) instruction by simp
    ultimately show ?thesis
      using instruction by (simp add: run firstPassLine_isInstruction [OF instruction l(1)] labelEntries_snoc)
  qed
qed

lemma labels_before:
  assumes "i < length ls" and "isLabelLine (ls ! i)"
  shows "length (filter isLabelLine (take i ls)) < length (filter isLabelLine ls)"
proof -
  have "ls = take i ls @ ls ! i # drop (Suc i) ls"
    using assms(1) by (simp add: id_take_nth_drop)
  then have "filter isLabelLine ls =
      filter isLabelLine (take i ls) @ ls ! i # filter isLabelLine (drop (Suc i) ls)"
    using assms(2) by (metis filter.simps(2) filter_append)
  then show ?thesis
    by (metis length_append length_Cons less_add_Suc1 add_Suc_right)
qed

lemma labelEntries_nth:
  assumes "i < length ls" and "isLabelLine (ls ! i)"
  shows "labelEntries ls ! length (filter isLabelLine (take i ls)) =
           (labelName (ls ! i), length (filter isInstructionLine (take i ls)))"
  using assms
proof (induction ls rule: rev_induct)
  case Nil
  then show ?case by simp
next
  case (snoc l ls)
  show ?case
  proof (cases "i < length ls")
    case True
    with snoc.prems have lab: "isLabelLine (ls ! i)"
      by (simp add: nth_append)
    from labels_before [OF True lab]
    have "length (filter isLabelLine (take i ls)) < length (labelEntries ls)"
      by (simp add: length_labelEntries)
    with snoc.IH [OF True lab] True show ?thesis
      by (simp add: labelEntries_snoc nth_append)
  next
    case False
    with snoc.prems have "i = length ls" "isLabelLine l"
      by (simp_all add: nth_append)
    then show ?thesis
      using nth_append_length [of "labelEntries ls" _ "[]"]
      by (simp add: labelEntries_snoc length_labelEntries)
  qed
qed

lemma labelEntries_names:
  "fst ` set (labelEntries ls) = (\<lambda>i. labelName (ls ! i)) ` {i. i < length ls \<and> isLabelLine (ls ! i)}"
  by (auto simp: labelEntries_def image_iff)

lemma labelEntries_first:
  assumes "i < length ls" and "isLabelLine (ls ! i)"
    and "\<forall>j < i. isLabelLine (ls ! j) \<longrightarrow> labelName (ls ! j) \<noteq> labelName (ls ! i)"
  shows "map_of (labelEntries ls) (labelName (ls ! i)) =
           Some (length (filter isInstructionLine (take i ls)))"
  using assms
proof (induction ls rule: rev_induct)
  case Nil
  then show ?case by simp
next
  case (snoc l ls)
  show ?case
  proof (cases "i < length ls")
    case True
    with snoc.prems have "isLabelLine (ls ! i)"
      "\<forall>j < i. isLabelLine (ls ! j) \<longrightarrow> labelName (ls ! j) \<noteq> labelName (ls ! i)"
      by (auto simp: nth_append)
    from snoc.IH [OF True this] True show ?thesis
      by (simp add: labelEntries_snoc nth_append map_add_def)
  next
    case False
    with snoc.prems have i: "i = length ls" "isLabelLine l"
      by (simp_all add: nth_append)
    have "labelName l \<notin> fst ` set (labelEntries ls)"
      using snoc.prems(3) i by (auto simp: labelEntries_names nth_append)
    then have "map_of (labelEntries ls) (labelName l) = None"
      by (simp add: map_of_eq_None_iff)
    with i show ?thesis
      by (simp add: labelEntries_snoc map_add_def)
  qed
qed

lemma secondPassLoop_comment:
  assumes "gInsFields st = clearedFields"
  shows "secondPassLoop oor (asmLine (CHR ''/'' # CHR ''/'' # l) # rest) st = secondPassLoop oor rest st"
proof -
  have "lineParser oor (asmLine (CHR ''/'' # CHR ''/'' # l)) st = Some (st, SYSTEM_FAILURE)"
    by (simp add: lineParser_def isComment_def asmLine_eq rd_def)
  then show ?thesis
    by (simp add: secondPassLoop_skip varInit_cleared [OF assms])
qed

lemma secondPassLoop_blank:
  assumes "gInsFields st = clearedFields"
  shows "secondPassLoop oor (asmLine [] # rest) st = secondPassLoop oor rest st"
proof -
  have "lineParser oor (asmLine []) st = Some (st, SYSTEM_FAILURE)"
    by (simp add: lineParser_def isComment_def asmLine_eq rd_def)
  then show ?thesis
    by (simp add: secondPassLoop_skip varInit_cleared [OF assms])
qed

lemma secondPassLoop_label:
  assumes st: "gInsFields st = clearedFields"
    and name: "CHR '')'' \<notin> set name" "NUL \<notin> set name" "length name \<le> 95"
    and v: "map_of (gSymbolTable st) name = Some v" "v < 10 ^ 9"
  shows "secondPassLoop oor (asmLine (CHR ''('' # name @ '')'') # rest) st = secondPassLoop oor rest st"
proof -
  let ?line = "asmLine (CHR ''('' # name @ '')'')"
  let ?k = "97 - length name"
  have line: "?line = CHR ''('' # name @ CHR '')'' # CR # LF # replicate (96 - length name) NUL"
    by (simp add: asmLine_eq)
  have "LINEBUFFER_SIZE = length name + Suc (Suc (Suc ?k))"
    using name(3) by simp
  then have zeros: "replicate LINEBUFFER_SIZE NUL =
      replicate (length name) NUL @ NUL # NUL # NUL # replicate ?k NUL"
    by (simp only: replicate_add replicate_Suc)
  have "copyUntil (\<lambda>c. c = CHR '')'') ([CHR ''(''] @ name @ CHR '')'' # CR # LF # replicate (96 - length name) NUL)
        1 (replicate LINEBUFFER_SIZE NUL) 0 =
      Some (name @ drop (length name) (replicate LINEBUFFER_SIZE NUL), length [CHR ''(''] + length name, length name)"
    using name by (intro copyUntil_from) auto
  then have copy: "copyUntil (\<lambda>c. c = CHR '')'') ?line 1 (replicate LINEBUFFER_SIZE NUL) 0 =
      Some (name @ NUL # NUL # NUL # replicate ?k NUL, 1 + length name, length name)"
    unfolding zeros by (simp add: line)
  have w1: "wr (name @ NUL # NUL # NUL # replicate ?k NUL) (length name) CR =
      Some (name @ CR # NUL # NUL # replicate ?k NUL)"
    by (rule wr_after)
  have w2: "wr (name @ CR # NUL # NUL # replicate ?k NUL) (length name + 1) LF =
      Some (name @ CR # LF # NUL # replicate ?k NUL)"
    using wr_after [of "name @ [CR]" NUL "NUL # replicate ?k NUL" LF] by simp
  have w3: "wr (name @ CR # LF # NUL # replicate ?k NUL) (length name + 2) NUL =
      Some (name @ CR # LF # NUL # replicate ?k NUL)"
    using wr_after [of "name @ [CR, LF]" NUL "replicate ?k NUL" NUL] by simp
  have str: "cstr (name @ CR # LF # NUL # replicate ?k NUL) = name @ [CR, LF]"
    using cstr_append_NUL [of "name @ [CR, LF]" "replicate ?k NUL"] name(2) by simp
  have "length (decDigits v) \<le> 9"
    using length_decDigits [of v 9] v(2) by simp
  then have "\<exists>add. searchSymbolEntry (name @ [CR, LF]) st =
      Some (st\<lparr>gInsFields := (gInsFields st)\<lparr>addFldString := add\<rparr>\<rparr>)"
    using searchSymbolEntry_found [OF v(1), of CR LF] name(3) by (auto simp: st cleared_lengths)
  then obtain add where "parseLabel ?line st = Some (st\<lparr>gInsFields := (gInsFields st)\<lparr>addFldString := add\<rparr>\<rparr>)"
    using copy w1 w2 w3 str by (auto simp: parseLabel_def)
  then have "lineParser oor ?line st =
      Some (st\<lparr>gInsFields := (gInsFields st)\<lparr>addFldString := add\<rparr>\<rparr>, SYSTEM_FAILURE)"
    by (simp add: lineParser_def isComment_def asmLine_eq rd_def)
  then show ?thesis
    by (simp add: secondPassLoop_skip varInit_cleared [OF st])
qed

lemma asmLine_kind:
  "isCommentLine (asmLine l) = (take 2 l = ''//'')"
  "isBlankLine (asmLine l) = (take 1 (l @ [CR]) = [CR])"
  "isLabelLine (asmLine l) = (take 1 l = ''('')"
  by (cases l; cases "tl l"; auto simp: asmLine_eq isCommentLine_def isBlankLine_def isLabelLine_def)+

lemma length_asmLine: "length l \<le> 98 \<Longrightarrow> length (asmLine l) = LINEBUFFER_SIZE"
  by (simp add: asmLine_eq)

lemma map_of_first:
  "map_of tbl s = Some v \<longleftrightarrow> (\<exists>i < length tbl. tbl ! i = (s, v) \<and> (\<forall>j < i. fst (tbl ! j) \<noteq> s))"
proof (induction tbl)
  case Nil
  show ?case by simp
next
  case (Cons e tbl)
  obtain k x where e: "e = (k, x)" by (cases e)
  show ?case
  proof (cases "k = s")
    case True
    have "(\<exists>i < length (e # tbl). (e # tbl) ! i = (s, v) \<and> (\<forall>j < i. fst ((e # tbl) ! j) \<noteq> s)) \<longleftrightarrow> x = v"
    proof
      assume "\<exists>i < length (e # tbl). (e # tbl) ! i = (s, v) \<and> (\<forall>j < i. fst ((e # tbl) ! j) \<noteq> s)"
      then obtain i where i: "(e # tbl) ! i = (s, v)" "\<forall>j < i. fst ((e # tbl) ! j) \<noteq> s"
        by blast
      have "i = 0"
      proof (rule ccontr)
        assume "i \<noteq> 0"
        with i(2) have "fst ((e # tbl) ! 0) \<noteq> s" by blast
        with e True show False by simp
      qed
      with i(1) e show "x = v" by simp
    next
      assume "x = v"
      with e True have "(e # tbl) ! 0 = (s, v) \<and> (\<forall>j < 0. fst ((e # tbl) ! j) \<noteq> s)"
        by simp
      then show "\<exists>i < length (e # tbl). (e # tbl) ! i = (s, v) \<and> (\<forall>j < i. fst ((e # tbl) ! j) \<noteq> s)"
        by (intro exI [of _ 0]) simp
    qed
    with e True show ?thesis by simp
  next
    case False
    have "(\<exists>i < length (e # tbl). (e # tbl) ! i = (s, v) \<and> (\<forall>j < i. fst ((e # tbl) ! j) \<noteq> s)) \<longleftrightarrow>
        (\<exists>i < length tbl. tbl ! i = (s, v) \<and> (\<forall>j < i. fst (tbl ! j) \<noteq> s))"
    proof
      assume "\<exists>i < length (e # tbl). (e # tbl) ! i = (s, v) \<and> (\<forall>j < i. fst ((e # tbl) ! j) \<noteq> s)"
      then obtain i where i: "i < length (e # tbl)" "(e # tbl) ! i = (s, v)"
        "\<forall>j < i. fst ((e # tbl) ! j) \<noteq> s"
        by blast
      with e False obtain i' where i': "i = Suc i'"
        by (cases i) auto
      with i have "i' < length tbl" "tbl ! i' = (s, v)"
        by simp_all
      moreover have "\<forall>j < i'. fst (tbl ! j) \<noteq> s"
      proof (intro allI impI)
        fix j assume "j < i'"
        then have "Suc j < i" using i' by simp
        with i(3) have "fst ((e # tbl) ! Suc j) \<noteq> s" by blast
        then show "fst (tbl ! j) \<noteq> s" by simp
      qed
      ultimately show "\<exists>i < length tbl. tbl ! i = (s, v) \<and> (\<forall>j < i. fst (tbl ! j) \<noteq> s)"
        by blast
    next
      assume "\<exists>i < length tbl. tbl ! i = (s, v) \<and> (\<forall>j < i. fst (tbl ! j) \<noteq> s)"
      then obtain i where i: "i < length tbl" "tbl ! i = (s, v)" "\<forall>j < i. fst (tbl ! j) \<noteq> s"
        by blast
      have "\<forall>j < Suc i. fst ((e # tbl) ! j) \<noteq> s"
      proof (intro allI impI)
        fix j assume "j < Suc i"
        then show "fst ((e # tbl) ! j) \<noteq> s"
          using i(3) e False by (cases j) auto
      qed
      with i show "\<exists>i < length (e # tbl). (e # tbl) ! i = (s, v) \<and> (\<forall>j < i. fst ((e # tbl) ! j) \<noteq> s)"
        by (intro exI [of _ "Suc i"]) simp
    qed
    with e False Cons.IH show ?thesis by simp
  qed
qed

lemma firstPassLine_extends:
  assumes "firstPassLine l (st, n) = Some (st', n')"
  shows "\<exists>E. gSymbolTable st' = gSymbolTable st @ E"
proof -
  from assms have "gSymbolTable st' = gSymbolTable st \<or> (\<exists>e. gSymbolTable st' = gSymbolTable st @ [e])"
    by (auto simp: firstPassLine_def split: bind_splits if_splits)
  then show ?thesis by auto
qed

lemma firstPassLoop_extends:
  "firstPassLoop ls (st, n) = Some (st', n') \<Longrightarrow> \<exists>E. gSymbolTable st' = gSymbolTable st @ E"
proof (induction ls arbitrary: st n)
  case Nil
  then show ?case by simp
next
  case (Cons l ls)
  from Cons.prems obtain st1 n1 where one: "firstPassLine l (st, n) = Some (st1, n1)"
    and rest: "firstPassLoop ls (st1, n1) = Some (st', n')"
    by (auto split: bind_splits)
  from firstPassLine_extends [OF one] Cons.IH [OF rest] show ?case
    by auto
qed

lemma secondPassLoop_extends:
  "secondPassLoop oor ls st = Some st' \<Longrightarrow> \<exists>E. gSymbolTable st' = gSymbolTable st @ E"
proof (induction ls arbitrary: st)
  case Nil
  then show ?case by simp
next
  case (Cons line rest)
  from Cons.prems obtain st1 status st2
    where parsed: "lineParser oor line st = Some (st1, status)"
      and written: "(if status = SYSTEM_SUCCESS then lineWriter st1 else Some st1) = Some st2"
      and run: "secondPassLoop oor rest (varInit st2) = Some st'"
    by (auto split: bind_splits)
  from lineParser_table [OF parsed] have "\<exists>E. gSymbolTable st1 = gSymbolTable st @ E"
    by (auto simp: tableStep_def)
  with secondPass_step_table(1) [OF parsed written] Cons.IH [OF run] show ?case
    by auto
qed

lemma scanTable_extends:
  assumes "scanTable T (length T) 0 s = Some x"
  shows "scanTable (T @ E) (length (T @ E)) 0 s = Some x"
  using assms unfolding scanTable_map_of by (simp add: map_add_Some_iff)

section \<open>Labels in a text with CR LF line ends\<close>

lemma text_kind:
  assumes "CR \<notin> set l"
  shows "isLabelLine (asmLine l) = isLabelText l"
    and "isInstructionLine (asmLine l) = isInstructionText l"
proof -
  show "isLabelLine (asmLine l) = isLabelText l"
    by (simp only: asmLine_kind isLabelText_def)
  have "(take 1 (l @ [CR]) = [CR]) = (l = [])"
    using assms by (cases l) auto
  then show "isInstructionLine (asmLine l) = isInstructionText l"
    by (simp only: isInstructionLine_def isInstructionText_def asmLine_kind isLabelText_def
        isCommentText_def isBlankText_def)
qed

lemma text_labelName:
  assumes "isLabelText l" and "CHR '')'' \<in> set l" and "NUL \<notin> set l"
  shows "labelName (asmLine l) = labelText l"
proof -
  from assms(1) obtain t where l: "l = CHR ''('' # t"
    by (cases l) (auto simp: isLabelText_def)
  with assms(2) have in_t: "CHR '')'' \<in> set t"
    by auto
  then have "takeWhile (\<lambda>c. c \<noteq> CHR '')'') (t @ r) = takeWhile (\<lambda>c. c \<noteq> CHR '')'') t" for r
    by (intro takeWhile_append1 [of "CHR '')''"]) auto
  moreover have "NUL \<notin> set (takeWhile (\<lambda>c. c \<noteq> CHR '')'') t)"
    using assms(3) l by (auto dest: set_takeWhileD)
  then have "cstr (takeWhile (\<lambda>c. c \<noteq> CHR '')'') t) = takeWhile (\<lambda>c. c \<noteq> CHR '')'') t"
    by (auto simp: cstr_def takeWhile_eq_all_conv)
  ultimately show ?thesis
    by (simp add: labelName_def labelText_def asmLine_eq l)
qed

lemma text_count:
  assumes "\<forall>l \<in> set xs. CR \<notin> set l"
  shows "length (filter isInstructionLine (map asmLine xs)) = length (filter isInstructionText xs)"
    and "length (filter isLabelLine (map asmLine xs)) = length (filter isLabelText xs)"
  using assms by (induction xs) (simp_all add: text_kind)

lemma labelEntries_text:
  assumes "\<forall>l \<in> set ls. CR \<notin> set l \<and> NUL \<notin> set l \<and> (isLabelText l \<longrightarrow> CHR '')'' \<in> set l)"
  shows "labelEntries (map asmLine ls) = labelTable ls"
proof -
  have cr: "\<forall>l \<in> set (take i ls). CR \<notin> set l" for i
    using assms by (auto dest: in_set_takeD)
  have idx: "filter (\<lambda>i. isLabelLine (map asmLine ls ! i)) [0..<length ls] =
      filter (\<lambda>i. isLabelText (ls ! i)) [0..<length ls]"
    using assms by (intro filter_cong) (auto simp: text_kind)
  have "map (\<lambda>i. (labelName (map asmLine ls ! i),
                   length (filter isInstructionLine (take i (map asmLine ls)))))
          (filter (\<lambda>i. isLabelText (ls ! i)) [0..<length ls]) =
        map (\<lambda>i. (labelText (ls ! i), length (filter isInstructionText (take i ls))))
          (filter (\<lambda>i. isLabelText (ls ! i)) [0..<length ls])"
  proof (intro map_cong refl)
    fix i
    assume "i \<in> set (filter (\<lambda>i. isLabelText (ls ! i)) [0..<length ls])"
    then have i: "i < length ls" "isLabelText (ls ! i)"
      by auto
    then have "labelName (asmLine (ls ! i)) = labelText (ls ! i)"
      using assms by (intro text_labelName) auto
    moreover have "length (filter isInstructionLine (map asmLine (take i ls))) =
        length (filter isInstructionText (take i ls))"
      using cr by (rule text_count)
    ultimately show "(labelName (map asmLine ls ! i),
                   length (filter isInstructionLine (take i (map asmLine ls)))) =
        (labelText (ls ! i), length (filter isInstructionText (take i ls)))"
      using i(1) by (simp add: take_map)
  qed
  then show ?thesis
    by (simp add: labelEntries_def labelTable_def idx)
qed

lemma firstPass_text:
  assumes wf: "\<forall>l \<in> set ls. CR \<notin> set l \<and> LF \<notin> set l \<and> NUL \<notin> set l \<and> length l < 98
        \<and> (isLabelText l \<longrightarrow> CHR '')'' \<in> set l)"
    and room: "length (gSymbolTable st) + length (filter isLabelText ls) \<le> SYMBOLTABLE_SIZE"
    and count: "length (filter isInstructionText ls) < 2 ^ 32"
  shows "firstPass (crlf_file ls) st = Some (st\<lparr>gSymbolTable := gSymbolTable st @ labelTable ls\<rparr>)"
proof -
  have cr: "\<forall>l \<in> set ls. CR \<notin> set l"
    using wf by blast
  have buffers: "fgets_all (crlf_file ls) = map asmLine ls"
    using wf by (intro fgets_all_crlf_file) blast
  have shape: "\<forall>b \<in> set (map asmLine ls). 2 \<le> length b \<and> length b \<le> LINEBUFFER_SIZE
      \<and> (isLabelLine b \<longrightarrow> CHR '')'' \<in> set b)"
  proof
    fix b
    assume "b \<in> set (map asmLine ls)"
    then obtain l where l: "l \<in> set ls" and b: "b = asmLine l"
      by auto
    from l wf have len: "length l \<le> 98" and cr: "CR \<notin> set l"
      and paren: "isLabelText l \<longrightarrow> CHR '')'' \<in> set l"
      by auto
    have "length b = LINEBUFFER_SIZE"
      unfolding b using len by (rule length_asmLine)
    moreover have "CHR '')'' \<in> set b" if "isLabelLine b"
    proof -
      from that have "isLabelText l"
        by (simp add: b text_kind [OF cr])
      with paren show ?thesis
        by (simp add: b asmLine_eq)
    qed
    ultimately show "2 \<le> length b \<and> length b \<le> LINEBUFFER_SIZE
      \<and> (isLabelLine b \<longrightarrow> CHR '')'' \<in> set b)"
      by simp
  qed
  have "firstPassLoop (map asmLine ls) (st, 0) =
      Some (st\<lparr>gSymbolTable := gSymbolTable st @ labelEntries (map asmLine ls)\<rparr>,
            length (filter isInstructionLine (map asmLine ls)))"
  proof (rule firstPassLoop_labels [OF shape])
    show "length (gSymbolTable st) + length (filter isLabelLine (map asmLine ls)) \<le> SYMBOLTABLE_SIZE"
      unfolding text_count [OF cr] by (rule room)
    show "length (filter isInstructionLine (map asmLine ls)) < 2 ^ 32"
      unfolding text_count [OF cr] by (rule count)
  qed
  then have "firstPassLoop (map asmLine ls) (st, 0) =
      Some (st\<lparr>gSymbolTable := gSymbolTable st @ labelEntries (map asmLine ls)\<rparr>,
            length (filter isInstructionText ls))"
    unfolding text_count [OF cr] .
  moreover have "labelEntries (map asmLine ls) = labelTable ls"
    using wf by (intro labelEntries_text) blast
  ultimately show ?thesis
    unfolding firstPass_def buffers by simp
qed


lemma labelTable_nth:
  assumes wf: "\<forall>l \<in> set ls. CR \<notin> set l \<and> NUL \<notin> set l \<and> (isLabelText l \<longrightarrow> CHR '')'' \<in> set l)"
    and i: "i < length ls" "isLabelText (ls ! i)"
  shows "labelTable ls ! length (filter isLabelText (take i ls)) =
           (labelText (ls ! i), length (filter isInstructionText (take i ls)))"
proof -
  have cr: "\<forall>l \<in> set (take i ls). CR \<notin> set l"
    using wf by (auto dest: in_set_takeD)
  have li: "ls ! i \<in> set ls"
    using i(1) by simp
  have lab: "isLabelLine (map asmLine ls ! i)"
    using i li wf by (simp add: text_kind)
  have name: "labelName (asmLine (ls ! i)) = labelText (ls ! i)"
    using i(2) li wf by (intro text_labelName) auto
  from labelEntries_nth [of i "map asmLine ls", OF _ lab] i(1)
  have "labelEntries (map asmLine ls) ! length (filter isLabelLine (map asmLine (take i ls))) =
      (labelName (asmLine (ls ! i)), length (filter isInstructionLine (map asmLine (take i ls))))"
    by (simp add: take_map)
  then show ?thesis
    unfolding text_count [OF cr] name labelEntries_text [OF wf] .
qed

lemma labelTable_first:
  assumes wf: "\<forall>l \<in> set ls. CR \<notin> set l \<and> NUL \<notin> set l \<and> (isLabelText l \<longrightarrow> CHR '')'' \<in> set l)"
    and i: "i < length ls" "isLabelText (ls ! i)"
    and first: "\<forall>j < i. isLabelText (ls ! j) \<longrightarrow> labelText (ls ! j) \<noteq> labelText (ls ! i)"
  shows "map_of (labelTable ls) (labelText (ls ! i)) =
           Some (length (filter isInstructionText (take i ls)))"
proof -
  have cr: "\<forall>l \<in> set (take i ls). CR \<notin> set l"
    using wf by (auto dest: in_set_takeD)
  have name: "labelName (asmLine (ls ! j)) = labelText (ls ! j)" if "j < length ls" "isLabelText (ls ! j)" for j
  proof -
    have "ls ! j \<in> set ls"
      using that(1) by simp
    with that(2) wf show ?thesis
      by (intro text_labelName) auto
  qed
  have kind: "isLabelLine (map asmLine ls ! j) = isLabelText (ls ! j)" if "j < length ls" for j
  proof -
    have "ls ! j \<in> set ls"
      using that by simp
    with wf that show ?thesis
      by (simp add: text_kind)
  qed
  have lab: "isLabelLine (map asmLine ls ! i)"
    using i kind by simp
  have earlier: "\<forall>j < i. isLabelLine (map asmLine ls ! j) \<longrightarrow>
      labelName (map asmLine ls ! j) \<noteq> labelName (map asmLine ls ! i)"
  proof (intro allI impI)
    fix j
    assume j: "j < i" and "isLabelLine (map asmLine ls ! j)"
    then have "isLabelText (ls ! j)" "j < length ls"
      using kind [of j] i(1) by simp_all
    with first j name [of j] name [OF i] i(1)
    show "labelName (map asmLine ls ! j) \<noteq> labelName (map asmLine ls ! i)"
      by simp
  qed
  from labelEntries_first [of i "map asmLine ls", OF _ lab earlier] i(1)
  have "map_of (labelEntries (map asmLine ls)) (labelName (asmLine (ls ! i))) =
      Some (length (filter isInstructionLine (map asmLine (take i ls))))"
    by (simp add: take_map)
  then show ?thesis
    unfolding text_count [OF cr] name [OF i] labelEntries_text [OF wf] .
qed

lemma length_labelTable: "length (labelTable ls) = length (filter isLabelText ls)"
proof -
  have "length (filter isLabelText (map ((!) ls) [0..<length ls])) =
      length (filter (\<lambda>i. isLabelText (ls ! i)) [0..<length ls])"
    by (simp add: filter_map o_def)
  then have "length (filter (\<lambda>i. isLabelText (ls ! i)) [0..<length ls]) = length (filter isLabelText ls)"
    by (simp only: map_nth)
  then show ?thesis
    by (simp add: labelTable_def)
qed

lemma length_labelText: "length (labelText l) \<le> length l - 1"
  unfolding labelText_def using length_takeWhile_le [of _ "tl l"] by simp

lemma labelText_NUL: "NUL \<notin> set l \<Longrightarrow> NUL \<notin> set (labelText l)"
  unfolding labelText_def by (cases l) (auto dest: set_takeWhileD)

lemma secondPassLoop_fields:
  assumes "secondPassLoop oor bs st = Some st'" and "gInsFields st = clearedFields"
  shows "gInsFields st' = clearedFields"
  using assms
proof (induction bs arbitrary: st)
  case Nil
  then show ?case by simp
next
  case (Cons b bs)
  from Cons.prems(1) obtain st1 status st2 where
    "lineParser oor b st = Some (st1, status)"
    "(if status = SYSTEM_SUCCESS then lineWriter st1 else Some st1) = Some st2"
    "secondPassLoop oor bs (varInit st2) = Some st'"
    by (auto split: bind_splits)
  then show ?case
    using Cons.IH [of "varInit st2"] by (simp add: varInit_def)
qed

text \<open>
  Claim C3, for input whose lines end in CR LF. Let the lines \<open>ls\<close> of the input hold no CR, LF
  or NUL byte and fewer than 98 bytes each (so that every line with its CR LF is one \<^verbatim>\<open>fgets\<close>
  buffer), let every line that starts with \<^verbatim>\<open>(\<close> hold a \<^verbatim>\<open>)\<close>, and let the symbol table have room
  for the labels. Then the first pass returns, and it has appended exactly one entry for every
  label line, in the order of the lines: the text between \<^verbatim>\<open>(\<close> and the first \<^verbatim>\<open>)\<close>, with the
  number of instruction lines before the label line. Comment lines, blank lines and label
  lines are not counted. In the second pass, at any state \<open>st\<close> it reaches, a line \<^verbatim>\<open>@name\<close> for
  the first declaration of a name that is not predefined and starts with a byte above \<^verbatim>\<open>9\<close>
  writes the word of this number.
\<close>
theorem label_addresses:
  assumes wf: "\<forall>l \<in> set ls. CR \<notin> set l \<and> LF \<notin> set l \<and> NUL \<notin> set l \<and> length l < 98
        \<and> (isLabelText l \<longrightarrow> CHR '')'' \<in> set l)"
    and room: "SYMBOLTABLE_TAIL + length (filter isLabelText ls) \<le> SYMBOLTABLE_SIZE"
    and count: "length (filter isInstructionText ls) < 2 ^ 32"
  shows "firstPass (crlf_file ls) initState =
        Some (initState\<lparr>gSymbolTable := initSymbolTable @ labelTable ls\<rparr>)
    \<and> length (labelTable ls) = length (filter isLabelText ls)
    \<and> (\<forall>i < length ls. isLabelText (ls ! i) \<longrightarrow>
         labelTable ls ! length (filter isLabelText (take i ls)) =
           (labelText (ls ! i), length (filter isInstructionText (take i ls))))
    \<and> (\<forall>i < length ls. \<forall>bs st.
         isLabelText (ls ! i)
         \<and> (\<forall>j < i. isLabelText (ls ! j) \<longrightarrow> labelText (ls ! j) \<noteq> labelText (ls ! i))
         \<and> labelText (ls ! i) \<notin> fst ` set initSymbolTable
         \<and> (of_char (hd (labelText (ls ! i) @ [CR])) :: nat) > of_char (CHR ''9'')
         \<and> length (filter isInstructionText (take i ls)) \<le> 65535
         \<and> secondPassLoop oor bs (initState\<lparr>gSymbolTable := initSymbolTable @ labelTable ls\<rparr>) = Some st
         \<longrightarrow>
         secondPassLoop oor [asmLine (CHR ''@'' # labelText (ls ! i))] st =
           Some (st\<lparr>opFile := opFile st @
                   addrWord (length (filter isInstructionText (take i ls))) @ [LF]\<rparr>)
         \<and> (\<forall>rest. secondPassLoop oor (asmLine (CHR ''@'' # labelText (ls ! i)) # rest) st =
               secondPassLoop oor rest
                 (st\<lparr>opFile := opFile st @
                     addrWord (length (filter isInstructionText (take i ls))) @ [LF]\<rparr>)))"
    (is "?pass \<and> ?len \<and> ?entries \<and> ?resolve")
proof -
  let ?st1 = "initState\<lparr>gSymbolTable := initSymbolTable @ labelTable ls\<rparr>"
  have wf': "\<forall>l \<in> set ls. CR \<notin> set l \<and> NUL \<notin> set l \<and> (isLabelText l \<longrightarrow> CHR '')'' \<in> set l)"
    using wf by blast
  have "firstPass (crlf_file ls) initState =
      Some (initState\<lparr>gSymbolTable := gSymbolTable initState @ labelTable ls\<rparr>)"
    using wf room count by (intro firstPass_text) (simp_all add: initState_def initSymbolTable_def)
  then have pass: ?pass
    by (simp add: initState_def)
  have len: ?len
    by (rule length_labelTable)
  have entries: ?entries
    using labelTable_nth [OF wf'] by blast
  have resolve: ?resolve
  proof (intro allI impI, elim conjE)
    fix i bs st
    let ?name = "labelText (ls ! i)"
    let ?k = "length (filter isInstructionText (take i ls))"
    assume i: "i < length ls" "isLabelText (ls ! i)"
      and first: "\<forall>j < i. isLabelText (ls ! j) \<longrightarrow> labelText (ls ! j) \<noteq> ?name"
      and fresh: "?name \<notin> fst ` set initSymbolTable"
      and letter: "(of_char (hd (?name @ [CR])) :: nat) > of_char (CHR ''9'')"
      and k: "?k \<le> 65535"
      and run: "secondPassLoop oor bs ?st1 = Some st"
    have li: "ls ! i \<in> set ls"
      using i(1) by simp
    have nul: "NUL \<notin> set ?name"
      using li wf by (intro labelText_NUL) blast
    have "length (ls ! i) < 98"
      using li wf by blast
    then have short: "length ?name \<le> 96"
      using length_labelText [of "ls ! i"] by simp
    have fields: "gInsFields st = clearedFields"
      using run by (rule secondPassLoop_fields) (simp add: initState_def)
    from secondPassLoop_extends [OF run] obtain E
      where E: "gSymbolTable st = (initSymbolTable @ labelTable ls) @ E"
      by auto
    have "map_of initSymbolTable ?name = None"
      using fresh by (simp add: map_of_eq_None_iff)
    moreover have "map_of (labelTable ls) ?name = Some ?k"
      using wf' i first by (rule labelTable_first)
    ultimately have found: "map_of (gSymbolTable st) ?name = Some ?k"
      unfolding E by (simp add: map_add_def)
    note step = secondPassLoop_symbol [OF fields nul short letter found k]
    have "secondPassLoop oor [asmLine (CHR ''@'' # ?name)] st =
        Some (st\<lparr>opFile := opFile st @ addrWord ?k @ [LF]\<rparr>)"
      unfolding step [of oor "[]"] by simp
    with step show "secondPassLoop oor [asmLine (CHR ''@'' # ?name)] st =
        Some (st\<lparr>opFile := opFile st @ addrWord ?k @ [LF]\<rparr>)
      \<and> (\<forall>rest. secondPassLoop oor (asmLine (CHR ''@'' # ?name) # rest) st =
               secondPassLoop oor rest (st\<lparr>opFile := opFile st @ addrWord ?k @ [LF]\<rparr>))"
      by blast
  qed
  from pass len entries resolve show ?thesis
    by (intro conjI)
qed

text \<open>
  \<^verbatim>\<open>fgets\<close> on a line of 99 bytes or more: the first 99 bytes fill the buffer, and the rest of
  the line is read as the next line.
\<close>
lemma fgets_chunk_full:
  "LF \<notin> set l \<Longrightarrow> length l = k \<Longrightarrow> fgets_chunk k (l @ s) = (l, s)"
proof (induction l arbitrary: k)
  case Nil
  then show ?case by simp
next
  case (Cons c l)
  then obtain k' where "k = Suc k'" "length l = k'"
    by auto
  with Cons show ?case
    by auto
qed

lemma fgets_all_full:
  assumes "LF \<notin> set l" and "length l = 99"
  shows "fgets_all (l @ s) = fgets_buffer l # fgets_all s"
proof -
  obtain c t where ct: "l @ s = c # t"
    using assms(2) by (cases l) auto
  have "fgets_chunk (LINEBUFFER_SIZE - 1) (l @ s) = (l, s)"
    using assms by (simp add: fgets_chunk_full)
  then show ?thesis
    unfolding ct by (simp add: fgets_all.simps)
qed

text \<open>
  Outside these conditions the count advances on a blank line and on a comment line. A blank
  line that ends in a bare LF starts with a byte that is neither \<^verbatim>\<open>/\<close> nor CR nor \<^verbatim>\<open>(\<close>; a comment
  line of 100 bytes is read in two buffers, and the second one starts with a byte of the
  comment's text. Each is counted as an instruction line, and the label after it gets the
  address 1, although no instruction line precedes it and the table of the labels of these
  lines gives it the address 0.
\<close>
theorem label_addresses_counterexample:
  "labelTable [[], ''(L)''] = [(''L'', 0)]
   \<and> labelTable [''//'' @ replicate 98 (CHR ''x''), ''(L)''] = [(''L'', 0)]
   \<and> firstPass (LF # ''(L)'' @ [CR, LF]) initState =
     Some (initState\<lparr>gSymbolTable := initSymbolTable @ [(''L'', 1)]\<rparr>)
   \<and> firstPass (''//'' @ replicate 98 (CHR ''x'') @ [CR, LF] @ ''(L)'' @ [CR, LF]) initState =
     Some (initState\<lparr>gSymbolTable := initSymbolTable @ [(''L'', 1)]\<rparr>)"
proof (intro conjI)
  show "labelTable [[], ''(L)''] = [(''L'', 0)]"
    by (simp add: labelTable_def labelText_def isLabelText_def isInstructionText_def
        isCommentText_def isBlankText_def)
  show "labelTable [''//'' @ replicate 98 (CHR ''x''), ''(L)''] = [(''L'', 0)]"
    by (simp add: labelTable_def labelText_def isLabelText_def isInstructionText_def
        isCommentText_def isBlankText_def)
  have label: "firstPassLine (asmLine ''(L)'') (initState, 1) =
      Some (initState\<lparr>gSymbolTable := initSymbolTable @ [(''L'', 1)]\<rparr>, 1)"
    using firstPassLine_label [of "asmLine ''(L)''" "''L''" "CR # LF # replicate 95 NUL" initState 1]
    by (simp add: asmLine_eq initState_def initSymbolTable_def cstr_def)
  have "fgets_all ([] @ LF # ''(L)'' @ [CR, LF]) = fgets_buffer ([] @ [LF]) # fgets_all (''(L)'' @ [CR, LF])"
    by (rule fgets_all_line) simp_all
  moreover have "fgets_all (''(L)'' @ [CR, LF]) = [asmLine ''(L)'']"
    using fgets_all_crlf_file [of "[''(L)'']"] by (simp add: crlf_file_def)
  ultimately have buffers: "fgets_all (LF # ''(L)'' @ [CR, LF]) = [fgets_buffer [LF], asmLine ''(L)'']"
    by simp
  have "firstPassLine (fgets_buffer [LF]) (initState, 0) = Some (initState, 1)"
    using firstPassLine_instruction [of "fgets_buffer [LF]" LF initState 0]
    by (simp add: fgets_buffer_def rd_def)
  with label show "firstPass (LF # ''(L)'' @ [CR, LF]) initState =
     Some (initState\<lparr>gSymbolTable := initSymbolTable @ [(''L'', 1)]\<rparr>)"
    unfolding firstPass_def buffers by simp
  let ?head = "''//'' @ replicate 97 (CHR ''x'')"
  have split: "''//'' @ replicate 98 (CHR ''x'') @ [CR, LF] @ ''(L)'' @ [CR, LF] =
      ?head @ crlf_file [''x'', ''(L)'']"
  proof -
    have "replicate 98 (CHR ''x'') = replicate 97 (CHR ''x'') @ ''x''"
      using replicate_add [of 97 1 "CHR ''x''"] by simp
    then show ?thesis
      by (simp add: crlf_file_def)
  qed
  have "fgets_all (?head @ crlf_file [''x'', ''(L)'']) = fgets_buffer ?head # fgets_all (crlf_file [''x'', ''(L)''])"
    by (rule fgets_all_full) simp_all
  moreover have "fgets_all (crlf_file [''x'', ''(L)'']) = map asmLine [''x'', ''(L)'']"
    by (rule fgets_all_crlf_file) simp
  ultimately have buffers2: "fgets_all (''//'' @ replicate 98 (CHR ''x'') @ [CR, LF] @ ''(L)'' @ [CR, LF]) =
      [fgets_buffer ?head, asmLine ''x'', asmLine ''(L)'']"
    unfolding split by simp
  have "firstPassLine (fgets_buffer ?head) (initState, 0) = Some (initState, 0)"
    by (rule firstPassLine_comment [of _ "replicate 97 (CHR ''x'') @ [NUL]"]) (simp add: fgets_buffer_def)
  moreover have "firstPassLine (asmLine ''x'') (initState, 0) = Some (initState, 1)"
    using firstPassLine_instruction [of "asmLine ''x''" "CHR ''x''" initState 0]
    by (simp add: asmLine_rd0)
  ultimately show "firstPass (''//'' @ replicate 98 (CHR ''x'') @ [CR, LF] @ ''(L)'' @ [CR, LF]) initState =
     Some (initState\<lparr>gSymbolTable := initSymbolTable @ [(''L'', 1)]\<rparr>)"
    using label unfolding firstPass_def buffers2 by simp
qed

theorem label_addresses_witness:
  "firstPass (crlf_file [''// sum'', ''@1'', [], ''D=A'', ''@2'', ''(LOOP)'', ''@LOOP'']) initState =
     Some (initState\<lparr>gSymbolTable := initSymbolTable @ [(''LOOP'', 3)]\<rparr>)
   \<and> labelTable [''// sum'', ''@1'', [], ''D=A'', ''@2'', ''(LOOP)'', ''@LOOP''] = [(''LOOP'', 3)]
   \<and> secondPassLoop (\<lambda>x. 0) [asmLine ''@LOOP'']
        (initState\<lparr>gSymbolTable := initSymbolTable @ [(''LOOP'', 3)]\<rparr>) =
       Some (initState\<lparr>gSymbolTable := initSymbolTable @ [(''LOOP'', 3)],
                       opFile := ''0000000000000011'' @ [LF]\<rparr>)
   \<and> assemble (\<lambda>x. 0) (crlf_file [''// sum'', ''@1'', [], ''D=A'', ''@2'', ''(LOOP)'', ''@LOOP'']) =
       Some (concat (map (\<lambda>w. w @ [LF])
         [''0000000000000001'', ''1110110000010000'', ''0000000000000010'', ''0000000000000011'']))"
proof -
  let ?P = "[''// sum'', ''@1'', [], ''D=A'', ''@2'', ''(LOOP)'', ''@LOOP'']"
  let ?ls = "map asmLine ?P"
  let ?st1 = "initState\<lparr>gSymbolTable := initSymbolTable @ [(''LOOP'', 3)]\<rparr>"
  have wf: "\<forall>l \<in> set ?P. CR \<notin> set l \<and> LF \<notin> set l \<and> NUL \<notin> set l \<and> length l < 98
        \<and> (isLabelText l \<longrightarrow> CHR '')'' \<in> set l)"
    by (simp add: isLabelText_def)
  have labels: "filter isLabelText ?P = [''(LOOP)'']"
    by (simp add: isLabelText_def)
  have instructions: "filter isInstructionText ?P = [''@1'', ''D=A'', ''@2'', ''@LOOP'']"
    "filter isInstructionText (take 5 ?P) = [''@1'', ''D=A'', ''@2'']"
    by (simp_all add: isInstructionText_def isLabelText_def isCommentText_def isBlankText_def)
  have table: "labelTable ?P = [(''LOOP'', 3)]"
    by (simp add: labelTable_def labelText_def isLabelText_def isInstructionText_def
        isCommentText_def isBlankText_def)
  have room: "SYMBOLTABLE_TAIL + length (filter isLabelText ?P) \<le> SYMBOLTABLE_SIZE"
    and count: "length (filter isInstructionText ?P) < 2 ^ 32"
    unfolding labels instructions by simp_all
  note inst = label_addresses [OF wf room count, of "\<lambda>x. 0"]
  from inst [THEN conjunct1] have first: "firstPass (crlf_file ?P) initState = Some ?st1"
    unfolding table .
  have word: "addrWord 3 = ''0000000000000011''"
    by (simp add: addrWord_eq bitChar_eq bit_0)
  have five: "?P ! 5 = ''(LOOP)''" "(5::nat) < length ?P"
    by simp_all
  have earlier: "\<forall>j < 5. \<not> isLabelText (?P ! j)"
  proof (intro allI impI)
    fix j :: nat
    assume "j < 5"
    then consider "j = 0" | "j = 1" | "j = 2" | "j = 3" | "j = 4"
      by linarith
    then show "\<not> isLabelText (?P ! j)"
      by cases (simp_all add: isLabelText_def)
  qed
  have name: "labelText ''(LOOP)'' = ''LOOP''" "isLabelText ''(LOOP)''"
    "''LOOP'' \<notin> fst ` set initSymbolTable"
    by (simp_all add: labelText_def isLabelText_def initSymbolTable_def)
  note resolve = inst [THEN conjunct2, THEN conjunct2, THEN conjunct2, rule_format, of 5 "[]" ?st1,
      THEN conjunct1, unfolded table five(1) instructions name(1)]
  have "secondPassLoop (\<lambda>x. 0) [asmLine ''@LOOP''] ?st1 =
       Some (?st1\<lparr>opFile := opFile ?st1 @ addrWord (length [''@1'', ''D=A'', ''@2'']) @ [LF]\<rparr>)"
  proof (rule resolve)
    show "5 < length ?P"
      by simp
    show "isLabelText ''(LOOP)''
      \<and> (\<forall>j<5. isLabelText (?P ! j) \<longrightarrow> labelText (?P ! j) \<noteq> ''LOOP'')
      \<and> ''LOOP'' \<notin> fst ` set initSymbolTable
      \<and> of_char (CHR ''9'') < (of_char (hd (''LOOP'' @ [CR])) :: nat)
      \<and> length [''@1'', ''D=A'', ''@2''] \<le> 65535
      \<and> secondPassLoop (\<lambda>x. 0) [] ?st1 = Some ?st1"
      using earlier name by simp
  qed
  moreover have "length [''@1'', ''D=A'', ''@2''] = (3::nat)" "opFile ?st1 = []"
    by (simp_all add: initState_def)
  ultimately have resolved: "secondPassLoop (\<lambda>x. 0) [asmLine ''@LOOP''] ?st1 =
       Some (?st1\<lparr>opFile := ''0000000000000011'' @ [LF]\<rparr>)"
    by (simp only: word append_Nil)
  have buffers: "fgets_all (crlf_file ?P) = ?ls"
    by (rule fgets_all_crlf_file) simp
  note lab = secondPassLoop_label [where name = "''LOOP''" and v = 3, unfolded append.simps]
  note dc = secondPassLoop_dest_comp [where d = "''D''" and dc = "''010''" and c = "''A''" and cc = "''0110000''",
    unfolded append.simps]
  have "secondPassLoop (\<lambda>x. 0) ?ls ?st1 =
      Some (?st1\<lparr>opFile := concat (map (\<lambda>w. w @ [LF])
         [''0000000000000001'', ''1110110000010000'', ''0000000000000010'', ''0000000000000011''])\<rparr>)"
    by (simp add: secondPassLoop_comment secondPassLoop_blank secondPassLoop_literal secondPassLoop_symbol
        lab dc initState_def initSymbolTable_def digit_def decval_def destFieldLT_def compFieldLT_def
        addrWord_eq bitChar_eq bit_0 del: secondPassLoop.simps(2))
  then have second: "secondPass (\<lambda>x. 0) (crlf_file ?P) ?st1 =
      Some (?st1\<lparr>opFile := concat (map (\<lambda>w. w @ [LF])
         [''0000000000000001'', ''1110110000010000'', ''0000000000000010'', ''0000000000000011''])\<rparr>)"
    unfolding secondPass_def buffers .
  have "assemble (\<lambda>x. 0) (crlf_file ?P) =
       Some (concat (map (\<lambda>w. w @ [LF])
         [''0000000000000001'', ''1110110000010000'', ''0000000000000010'', ''0000000000000011'']))"
    by (simp add: assemble_def first second)
  with first table resolved show ?thesis
    by (simp add: initState_def)
qed

section \<open>Resolution of a name\<close>

lemma firstPassLoop_fields:
  "firstPassLoop ls (st, n) = Some (st', n') \<Longrightarrow> gInsFields st' = gInsFields st"
proof (induction ls arbitrary: st n)
  case Nil
  then show ?case by simp
next
  case (Cons l ls)
  from Cons.prems obtain st1 n1 where one: "firstPassLine l (st, n) = Some (st1, n1)"
    and rest: "firstPassLoop ls (st1, n1) = Some (st', n')"
    by (auto split: bind_splits)
  from one have "gInsFields st1 = gInsFields st"
    by (auto simp: firstPassLine_def split: bind_splits if_splits prod.splits)
  with Cons.IH [OF rest] show ?case
    by simp
qed

lemma searchSymbolEntry_first:
  assumes first: "i < length tbl" "tbl ! i = (name, v)" "\<forall>j < i. fst (tbl ! j) \<noteq> name"
    and tbl: "gSymbolTable st = tbl @ E"
    and fits: "length name < 98" "v < 10 ^ 9" "gInsFields st = clearedFields"
  shows "searchSymbolEntry (name @ [a, b]) st =
     Some (st\<lparr>gInsFields := clearedFields
       \<lparr>addFldString := rev (decDigits v) @ NUL #
            drop (length (decDigits v) + 1) (addFldString clearedFields)\<rparr>\<rparr>)"
proof -
  have "map_of tbl name = Some v"
    using first by (auto simp: map_of_first)
  then have found: "map_of (gSymbolTable st) name = Some v"
    unfolding tbl by (simp add: map_add_def)
  have "length (decDigits v) \<le> 9"
    using length_decDigits [of v 9] fits(2) by simp
  then have "length (decDigits v) < length (addFldString (gInsFields st))"
    by (simp add: fits(3) cleared_lengths)
  from searchSymbolEntry_found [OF found fits(1) this, of a b] show ?thesis
    by (simp add: fits(3))
qed

text \<open>
  Claim C9. Let \<open>i\<close> be the first index, counted from 0, of an entry with the name in the
  symbol table, and \<open>v\<close> its value. Then \<open>searchSymbolEntry\<close> resolves the name to \<open>v\<close>: it writes
  the decimal digits of \<open>v\<close> to \<^verbatim>\<open>addFldString\<close> and leaves the table and \<^verbatim>\<open>currMemory\<close> as they
  are, whatever entries \<open>E\<close> follow in the table, entries with the same name among them. Both
  passes, over any lines, only append to the table, and after them the name still resolves to
  \<open>v\<close>. A name that is not in the table is appended at the tail with the value \<^verbatim>\<open>currMemory\<close>;
  no entry before it changes.
\<close>
theorem keep_first_resolution:
  assumes first: "i < length (gSymbolTable st)" "gSymbolTable st ! i = (name, v)"
      "\<forall>j < i. fst (gSymbolTable st ! j) \<noteq> name"
    and fits: "length name < 98" "v < 10 ^ 9" "gInsFields st = clearedFields"
  shows "searchSymbolEntry (name @ [a, b]) (st\<lparr>gSymbolTable := gSymbolTable st @ E\<rparr>) =
       Some (st\<lparr>gSymbolTable := gSymbolTable st @ E,
                gInsFields := clearedFields
                  \<lparr>addFldString := rev (decDigits v) @ NUL #
                       drop (length (decDigits v) + 1) (addFldString clearedFields)\<rparr>\<rparr>)
    \<and> decval (rev (decDigits v)) = v
    \<and> (\<forall>ls n st1 n1. firstPassLoop ls (st, n) = Some (st1, n1) \<longrightarrow>
         take (length (gSymbolTable st)) (gSymbolTable st1) = gSymbolTable st
         \<and> searchSymbolEntry (name @ [a, b]) st1 =
             Some (st1\<lparr>gInsFields := clearedFields
                  \<lparr>addFldString := rev (decDigits v) @ NUL #
                       drop (length (decDigits v) + 1) (addFldString clearedFields)\<rparr>\<rparr>))
    \<and> (\<forall>oor ls st2. secondPassLoop oor ls st = Some st2 \<longrightarrow>
         take (length (gSymbolTable st)) (gSymbolTable st2) = gSymbolTable st
         \<and> searchSymbolEntry (name @ [a, b]) st2 =
             Some (st2\<lparr>gInsFields := clearedFields
                  \<lparr>addFldString := rev (decDigits v) @ NUL #
                       drop (length (decDigits v) + 1) (addFldString clearedFields)\<rparr>\<rparr>))
    \<and> (\<forall>other. map_of (gSymbolTable st) other = None \<and> length other < 98
           \<and> length (gSymbolTable st) < SYMBOLTABLE_SIZE \<and> currMemory st < 10 ^ 9 \<longrightarrow>
         searchSymbolEntry (other @ [a, b]) st =
           Some (st\<lparr>gSymbolTable := gSymbolTable st @ [(other, currMemory st)],
                    currMemory := (currMemory st + 1) mod 2 ^ 32,
                    gInsFields := clearedFields
                      \<lparr>addFldString := rev (decDigits (currMemory st)) @ NUL #
                         drop (length (decDigits (currMemory st)) + 1) (addFldString clearedFields)\<rparr>\<rparr>))"
    (is "?later \<and> ?number \<and> ?one \<and> ?two \<and> ?new")
proof -
  have later: ?later
    using searchSymbolEntry_first [OF first, of "st\<lparr>gSymbolTable := gSymbolTable st @ E\<rparr>" E a b] fits
    by simp
  have digits: ?number
    by (rule decval_decDigits)
  have one: ?one
  proof (intro allI impI)
    fix ls n st1 n1
    assume run: "firstPassLoop ls (st, n) = Some (st1, n1)"
    then obtain E1 where E1: "gSymbolTable st1 = gSymbolTable st @ E1"
      using firstPassLoop_extends by blast
    have "gInsFields st1 = clearedFields"
      using firstPassLoop_fields [OF run] fits(3) by simp
    from searchSymbolEntry_first [OF first E1 fits(1,2) this, of a b] E1
    show "take (length (gSymbolTable st)) (gSymbolTable st1) = gSymbolTable st
         \<and> searchSymbolEntry (name @ [a, b]) st1 =
             Some (st1\<lparr>gInsFields := clearedFields
                  \<lparr>addFldString := rev (decDigits v) @ NUL #
                       drop (length (decDigits v) + 1) (addFldString clearedFields)\<rparr>\<rparr>)"
      by simp
  qed
  have two: ?two
  proof (intro allI impI)
    fix oor ls st2
    assume run: "secondPassLoop oor ls st = Some st2"
    then obtain E2 where E2: "gSymbolTable st2 = gSymbolTable st @ E2"
      using secondPassLoop_extends by blast
    have "gInsFields st2 = clearedFields"
      using run fits(3) by (rule secondPassLoop_fields)
    from searchSymbolEntry_first [OF first E2 fits(1,2) this, of a b] E2
    show "take (length (gSymbolTable st)) (gSymbolTable st2) = gSymbolTable st
         \<and> searchSymbolEntry (name @ [a, b]) st2 =
             Some (st2\<lparr>gInsFields := clearedFields
                  \<lparr>addFldString := rev (decDigits v) @ NUL #
                       drop (length (decDigits v) + 1) (addFldString clearedFields)\<rparr>\<rparr>)"
      by simp
  qed
  have new: ?new
  proof (intro allI impI, elim conjE)
    fix other
    assume absent: "map_of (gSymbolTable st) other = None" and short: "length other < 98"
      and room: "length (gSymbolTable st) < SYMBOLTABLE_SIZE" and cm: "currMemory st < 10 ^ 9"
    have "length (decDigits (currMemory st)) \<le> 9"
      using length_decDigits [of "currMemory st" 9] cm by simp
    then have "length (decDigits (currMemory st)) < length (addFldString (gInsFields st))"
      by (simp add: fits(3) cleared_lengths)
    from searchSymbolEntry_new [OF absent short room this, of a b]
    show "searchSymbolEntry (other @ [a, b]) st =
           Some (st\<lparr>gSymbolTable := gSymbolTable st @ [(other, currMemory st)],
                    currMemory := (currMemory st + 1) mod 2 ^ 32,
                    gInsFields := clearedFields
                      \<lparr>addFldString := rev (decDigits (currMemory st)) @ NUL #
                         drop (length (decDigits (currMemory st)) + 1) (addFldString clearedFields)\<rparr>\<rparr>)"
      by (simp add: fits(3))
  qed
  from later digits one two new show ?thesis
    by (intro conjI)
qed

lemma decDigits_1: "decDigits 1 = ''1''"
  by (simp add: decDigits.simps char_of_def bit_0)

theorem keep_first_resolution_witness:
  "firstPass (crlf_file [''@1'', ''(L)'', ''@2'', ''(L)'', ''@L'']) initState =
     Some (initState\<lparr>gSymbolTable := initSymbolTable @ [(''L'', 1), (''L'', 2)]\<rparr>)
   \<and> searchSymbolEntry (''L'' @ [CR, LF])
        (initState\<lparr>gSymbolTable := initSymbolTable @ [(''L'', 1), (''L'', 2)]\<rparr>) =
     Some (initState\<lparr>gSymbolTable := initSymbolTable @ [(''L'', 1), (''L'', 2)],
             gInsFields := clearedFields\<lparr>addFldString := ''1'' @ NUL # replicate 8 INVALID_VALUE\<rparr>\<rparr>)
   \<and> assemble (\<lambda>x. 0) (crlf_file [''@1'', ''(L)'', ''@2'', ''(L)'', ''@L'']) =
       Some (concat (map (\<lambda>w. w @ [LF])
         [''0000000000000001'', ''0000000000000010'', ''0000000000000001'']))"
proof -
  let ?P = "[''@1'', ''(L)'', ''@2'', ''(L)'', ''@L'']"
  let ?S1 = "initState\<lparr>gSymbolTable := initSymbolTable @ [(''L'', 1)]\<rparr>"
  let ?S2 = "initState\<lparr>gSymbolTable := initSymbolTable @ [(''L'', 1), (''L'', 2)]\<rparr>"
  have buffers: "fgets_all (crlf_file ?P) = map asmLine ?P"
    by (rule fgets_all_crlf_file) simp
  have l1: "firstPassLine (asmLine ''(L)'') (initState, 1) = Some (?S1, 1)"
    using firstPassLine_label [of "asmLine ''(L)''" "''L''" "CR # LF # replicate 95 NUL" initState 1]
    by (simp add: asmLine_eq initState_def initSymbolTable_def cstr_def)
  have l2: "firstPassLine (asmLine ''(L)'') (?S1, 2) = Some (?S2, 2)"
    using firstPassLine_label [of "asmLine ''(L)''" "''L''" "CR # LF # replicate 95 NUL" ?S1 2]
    by (simp add: asmLine_eq initState_def initSymbolTable_def cstr_def)
  have i1: "firstPassLine (asmLine ''@1'') (initState, 0) = Some (initState, 1)"
    using firstPassLine_instruction [of "asmLine ''@1''" "CHR ''@''" initState 0]
    by (simp add: asmLine_rd0)
  have i2: "firstPassLine (asmLine ''@2'') (?S1, 1) = Some (?S1, 2)"
    using firstPassLine_instruction [of "asmLine ''@2''" "CHR ''@''" ?S1 1]
    by (simp add: asmLine_rd0)
  have i3: "firstPassLine (asmLine ''@L'') (?S2, 2) = Some (?S2, 3)"
    using firstPassLine_instruction [of "asmLine ''@L''" "CHR ''@''" ?S2 2]
    by (simp add: asmLine_rd0)
  have "firstPassLoop (map asmLine ?P) (initState, 0) = Some (?S2, 3)"
    by (simp add: i1 l1 i2 l2 i3 del: One_nat_def)
  then have first: "firstPass (crlf_file ?P) initState = Some ?S2"
    unfolding firstPass_def buffers by simp
  have entry: "23 < length (gSymbolTable ?S1)" "gSymbolTable ?S1 ! 23 = (''L'', 1)"
    by (simp_all add: initState_def initSymbolTable_def del: One_nat_def)
  have size: "length initSymbolTable = 23"
    by (simp add: initSymbolTable_def)
  have predefined: "''L'' \<notin> fst ` set initSymbolTable"
    by (simp add: initSymbolTable_def)
  have before: "\<forall>j < 23. fst (gSymbolTable ?S1 ! j) \<noteq> ''L''"
  proof (intro allI impI)
    fix j :: nat
    assume j: "j < 23"
    then have "gSymbolTable ?S1 ! j = initSymbolTable ! j"
      by (simp add: initState_def nth_append size)
    moreover have "initSymbolTable ! j \<in> set initSymbolTable"
      using j size by (intro nth_mem) simp
    ultimately show "fst (gSymbolTable ?S1 ! j) \<noteq> ''L''"
      using predefined by (metis imageI)
  qed
  have fits: "length ''L'' < 98" "(1::nat) < 10 ^ 9" "gInsFields ?S1 = clearedFields"
    by (simp_all add: initState_def)
  from keep_first_resolution [OF entry before fits, of CR LF "[(''L'', 2)]", THEN conjunct1]
  have resolved: "searchSymbolEntry (''L'' @ [CR, LF]) ?S2 =
     Some (?S2\<lparr>gInsFields := clearedFields\<lparr>addFldString := ''1'' @ NUL # replicate 8 INVALID_VALUE\<rparr>\<rparr>)"
    by (simp add: decDigits_1 [unfolded One_nat_def] clearedFields_def initState_def)
  have found: "map_of (gSymbolTable ?S2) ''L'' = Some 1"
    by (simp add: initState_def initSymbolTable_def)
  note lab = secondPassLoop_label [where name = "''L''" and v = 1, unfolded append.simps]
  note sym = secondPassLoop_symbol [where name = "''L''" and v = 1]
  have "secondPassLoop (\<lambda>x. 0) (map asmLine ?P) ?S2 =
      Some (?S2\<lparr>opFile := concat (map (\<lambda>w. w @ [LF])
         [''0000000000000001'', ''0000000000000010'', ''0000000000000001''])\<rparr>)"
    using found
    by (simp add: secondPassLoop_literal lab sym initState_def digit_def decval_def
        addrWord_eq bitChar_eq bit_0 del: secondPassLoop.simps(2))
  then have second: "secondPass (\<lambda>x. 0) (crlf_file ?P) ?S2 =
      Some (?S2\<lparr>opFile := concat (map (\<lambda>w. w @ [LF])
         [''0000000000000001'', ''0000000000000010'', ''0000000000000001''])\<rparr>)"
    unfolding secondPass_def buffers .
  have "assemble (\<lambda>x. 0) (crlf_file ?P) =
       Some (concat (map (\<lambda>w. w @ [LF])
         [''0000000000000001'', ''0000000000000010'', ''0000000000000001'']))"
    by (simp add: assemble_def first second del: One_nat_def)
  with first resolved show ?thesis
    by (simp add: initState_def)
qed

text \<open>
  Claim C10. For a line that starts with \<^verbatim>\<open>@\<close>, the parser never returns \<^verbatim>\<open>SYSTEM_FAILURE\<close>:
  unless a buffer is overrun (\<open>None\<close>), it returns \<^verbatim>\<open>SYSTEM_SUCCESS\<close> with a word of sixteen
  characters \<^verbatim>\<open>0\<close> and \<^verbatim>\<open>1\<close> in \<^verbatim>\<open>bitFields\<close>, and the second pass writes this word to the output
  file. No buffer is overrun for a literal operand that fits \<^verbatim>\<open>addFldString\<close>, whatever its
  bytes and its value are (the operand is not validated, and the number it denotes is not
  checked against any range), nor for a symbol operand whose value has at most nine decimal
  digits: a name that is in the table, or a new name with room in the table. For a symbol
  operand the word written is the word of the value found, or the word of \<^verbatim>\<open>currMemory\<close> for
  a new name, which is appended to the table.
\<close>
theorem address_form_never_rejected:
  assumes "rd line 0 = Some (CHR ''@'')"
  shows "(lineParser oor line st = None \<or>
          (\<exists>st1 addr. parseAddress line st = Some st1 \<and>
             lineParser oor line st =
               Some (st1\<lparr>gInsFields := (gInsFields st1)\<lparr>bitFields := addrWord addr @ [NUL]\<rparr>\<rparr>,
                     SYSTEM_SUCCESS) \<and>
             secondPassLoop oor [line] st =
               Some (varInit (st1\<lparr>opFile := opFile st1 @ addrWord addr @ [LF]\<rparr>)) \<and>
             secondPassLoop oor (line # rest) st =
               secondPassLoop oor rest (varInit (st1\<lparr>opFile := opFile st1 @ addrWord addr @ [LF]\<rparr>)) \<and>
             length (addrWord addr) = BITFIELD_MAX \<and> set (addrWord addr) \<subseteq> {CHR ''0'', CHR ''1''}))
    \<and> (\<forall>ds r. line = CHR ''@'' # ds @ CR # r \<and> CR \<notin> set ds
           \<and> \<not> (of_char (hd (ds @ [CR])) :: nat) > of_char (CHR ''9'')
           \<and> length ds < length (addFldString (gInsFields st))
         \<longrightarrow> lineParser oor line st \<noteq> None)
    \<and> (\<forall>name r v. line = CHR ''@'' # name @ CR # LF # NUL # r \<and> NUL \<notin> set name
           \<and> (of_char (hd (name @ [CR])) :: nat) > of_char (CHR ''9'')
           \<and> length name < 98 \<and> length (addFldString (gInsFields st)) = 10
           \<and> map_of (gSymbolTable st) name = Some v \<and> v < 10 ^ 9
         \<longrightarrow> lineParser oor line st \<noteq> None)
    \<and> (\<forall>name r. line = CHR ''@'' # name @ CR # LF # NUL # r \<and> NUL \<notin> set name
           \<and> (of_char (hd (name @ [CR])) :: nat) > of_char (CHR ''9'')
           \<and> length name < 98 \<and> length (addFldString (gInsFields st)) = 10
           \<and> map_of (gSymbolTable st) name = None
           \<and> length (gSymbolTable st) < SYMBOLTABLE_SIZE \<and> currMemory st < 10 ^ 9
         \<longrightarrow> lineParser oor line st \<noteq> None)
    \<and> (\<forall>name v. line = asmLine (CHR ''@'' # name) \<and> NUL \<notin> set name
           \<and> (of_char (hd (name @ [CR])) :: nat) > of_char (CHR ''9'')
           \<and> length name \<le> 96 \<and> gInsFields st = clearedFields
           \<and> map_of (gSymbolTable st) name = Some v \<and> v \<le> 65535
         \<longrightarrow> secondPassLoop oor [line] st = Some (st\<lparr>opFile := opFile st @ addrWord v @ [LF]\<rparr>))
    \<and> (\<forall>name. line = asmLine (CHR ''@'' # name) \<and> NUL \<notin> set name
           \<and> (of_char (hd (name @ [CR])) :: nat) > of_char (CHR ''9'')
           \<and> length name \<le> 96 \<and> gInsFields st = clearedFields
           \<and> map_of (gSymbolTable st) name = None
           \<and> length (gSymbolTable st) < SYMBOLTABLE_SIZE \<and> currMemory st \<le> 65535
         \<longrightarrow> secondPassLoop oor [line] st =
               Some (st\<lparr>gSymbolTable := gSymbolTable st @ [(name, currMemory st)],
                        currMemory := currMemory st + 1,
                        opFile := opFile st @ addrWord (currMemory st) @ [LF]\<rparr>))"
    (is "?accept \<and> ?literal \<and> ?known \<and> ?new \<and> ?resolved \<and> ?allocated")
proof -
  have encode: "lineParser oor line st \<noteq> None" if "parseAddress line st = Some st1" for st1
  proof -
    from parseAddress_address [OF that] obtain a
      where "rd (addFldString (gInsFields st1)) 0 = Some a" "a \<noteq> INVALID_VALUE"
        "NUL \<in> set (addFldString (gInsFields st1))"
      by blast
    from lineCommand_address_any [OF this] obtain addr
      where "lineCommand oor (gInsFields st1) =
          Some ((gInsFields st1)\<lparr>bitFields := addrWord addr @ [NUL]\<rparr>, SYSTEM_SUCCESS)"
      by blast
    with that show ?thesis
      by (simp add: lineParser_address [OF assms])
  qed
  have accept: ?accept
  proof (cases "parseAddress line st")
    case None
    then show ?thesis
      by (simp add: lineParser_address [OF assms])
  next
    case (Some st1)
    from parseAddress_address [OF Some] obtain a
      where "rd (addFldString (gInsFields st1)) 0 = Some a" "a \<noteq> INVALID_VALUE"
        "NUL \<in> set (addFldString (gInsFields st1))"
      by blast
    from lineCommand_address_any [OF this] obtain addr
      where "lineCommand oor (gInsFields st1) =
        Some ((gInsFields st1)\<lparr>bitFields := addrWord addr @ [NUL]\<rparr>, SYSTEM_SUCCESS)"
      by blast
    with Some have parsed: "lineParser oor line st =
        Some (st1\<lparr>gInsFields := (gInsFields st1)\<lparr>bitFields := addrWord addr @ [NUL]\<rparr>\<rparr>,
              SYSTEM_SUCCESS)"
      by (simp add: lineParser_address [OF assms])
    have step: "secondPassLoop oor (line # rest') st =
        secondPassLoop oor rest' (varInit (st1\<lparr>opFile := opFile st1 @ addrWord addr @ [LF]\<rparr>))" for rest'
      by (subst secondPassLoop_emit [OF parsed, of "addrWord addr" "[]"])
         (simp_all add: addrWord_NUL varInit_def)
    have "secondPassLoop oor [line] st =
        Some (varInit (st1\<lparr>opFile := opFile st1 @ addrWord addr @ [LF]\<rparr>))"
      unfolding step [of "[]"] by simp
    with Some parsed step [of rest] addrWord_shape show ?thesis
      by blast
  qed
  have literal: ?literal
  proof (intro allI impI)
    fix ds r
    assume lit: "line = CHR ''@'' # ds @ CR # r \<and> CR \<notin> set ds
           \<and> \<not> (of_char (hd (ds @ [CR])) :: nat) > of_char (CHR ''9'')
           \<and> length ds < length (addFldString (gInsFields st))"
    then have "parseAddress line st = Some (st\<lparr>gInsFields := (gInsFields st)
             \<lparr>addFldString := ds @ NUL # drop (length ds + 1) (addFldString (gInsFields st))\<rparr>\<rparr>)"
      by (intro parseAddress_literal) auto
    then show "lineParser oor line st \<noteq> None"
      by (rule encode)
  qed
  have symbol: "parseAddress line st = searchSymbolEntry (name @ [CR, LF]) st"
    if "line = CHR ''@'' # name @ CR # LF # NUL # r" "NUL \<notin> set name"
      "(of_char (hd (name @ [CR])) :: nat) > of_char (CHR ''9'')" for name r
  proof -
    have "hd ((name @ [CR, LF]) @ [NUL]) = hd (name @ [CR])"
      by (cases name) simp_all
    with that(3) have "(of_char (hd ((name @ [CR, LF]) @ [NUL])) :: nat) > of_char (CHR ''9'')"
      by simp
    moreover have "NUL \<notin> set (name @ [CR, LF])"
      using that(2) by simp
    moreover have "line = CHR ''@'' # (name @ [CR, LF]) @ NUL # r"
      using that(1) by simp
    ultimately show ?thesis
      by (intro parseAddress_symbol)
  qed
  have known: ?known
  proof (intro allI impI, elim conjE)
    fix name r v
    assume line: "line = CHR ''@'' # name @ CR # LF # NUL # r" and nul: "NUL \<notin> set name"
      and letter: "(of_char (hd (name @ [CR])) :: nat) > of_char (CHR ''9'')"
      and short: "length name < 98" and add: "length (addFldString (gInsFields st)) = 10"
      and found: "map_of (gSymbolTable st) name = Some v" and v: "v < 10 ^ 9"
    have "length (decDigits v) \<le> 9"
      using length_decDigits [of v 9] v by simp
    then have "length (decDigits v) < length (addFldString (gInsFields st))"
      by (simp add: add)
    from searchSymbolEntry_found [OF found short this, of CR LF] symbol [OF line nul letter]
    obtain st1 where "parseAddress line st = Some st1"
      by simp
    then show "lineParser oor line st \<noteq> None"
      by (rule encode)
  qed
  have new: ?new
  proof (intro allI impI, elim conjE)
    fix name r
    assume line: "line = CHR ''@'' # name @ CR # LF # NUL # r" and nul: "NUL \<notin> set name"
      and letter: "(of_char (hd (name @ [CR])) :: nat) > of_char (CHR ''9'')"
      and short: "length name < 98" and add: "length (addFldString (gInsFields st)) = 10"
      and absent: "map_of (gSymbolTable st) name = None"
      and room: "length (gSymbolTable st) < SYMBOLTABLE_SIZE" and cm: "currMemory st < 10 ^ 9"
    have "length (decDigits (currMemory st)) \<le> 9"
      using length_decDigits [of "currMemory st" 9] cm by simp
    then have "length (decDigits (currMemory st)) < length (addFldString (gInsFields st))"
      by (simp add: add)
    from searchSymbolEntry_new [OF absent short room this, of CR LF] symbol [OF line nul letter]
    obtain st1 where "parseAddress line st = Some st1"
      by simp
    then show "lineParser oor line st \<noteq> None"
      by (rule encode)
  qed
  have resolved: ?resolved
  proof (intro allI impI, elim conjE)
    fix name v
    assume line: "line = asmLine (CHR ''@'' # name)" and nul: "NUL \<notin> set name"
      and letter: "(of_char (hd (name @ [CR])) :: nat) > of_char (CHR ''9'')"
      and short: "length name \<le> 96" and fields: "gInsFields st = clearedFields"
      and found: "map_of (gSymbolTable st) name = Some v" and v: "v \<le> 65535"
    show "secondPassLoop oor [line] st = Some (st\<lparr>opFile := opFile st @ addrWord v @ [LF]\<rparr>)"
      unfolding line secondPassLoop_symbol [OF fields nul short letter found v, of oor "[]"]
      by simp
  qed
  have allocated: ?allocated
  proof (intro allI impI, elim conjE)
    fix name
    assume line: "line = asmLine (CHR ''@'' # name)" and nul: "NUL \<notin> set name"
      and letter: "(of_char (hd (name @ [CR])) :: nat) > of_char (CHR ''9'')"
      and short: "length name \<le> 96" and fields: "gInsFields st = clearedFields"
      and absent: "map_of (gSymbolTable st) name = None"
      and room: "length (gSymbolTable st) < SYMBOLTABLE_SIZE" and cm: "currMemory st \<le> 65535"
    show "secondPassLoop oor [line] st =
               Some (st\<lparr>gSymbolTable := gSymbolTable st @ [(name, currMemory st)],
                        currMemory := currMemory st + 1,
                        opFile := opFile st @ addrWord (currMemory st) @ [LF]\<rparr>)"
      unfolding line secondPassLoop_variable [OF fields nul short letter absent room cm, of oor "[]"]
      by simp
  qed
  from accept literal known new resolved allocated show ?thesis
    by (intro conjI)
qed

theorem address_form_never_rejected_witness:
  "rd (asmLine ''@70000'') 0 = Some (CHR ''@'')
   \<and> (\<exists>st1 addr. lineParser (\<lambda>x. 0) (asmLine ''@70000'') initState =
               Some (st1\<lparr>gInsFields := (gInsFields st1)\<lparr>bitFields := addrWord addr @ [NUL]\<rparr>\<rparr>,
                     SYSTEM_SUCCESS)
          \<and> secondPassLoop (\<lambda>x. 0) [asmLine ''@70000''] initState =
               Some (varInit (st1\<lparr>opFile := opFile st1 @ addrWord addr @ [LF]\<rparr>)))
   \<and> lineParser (\<lambda>x. 0) (asmLine ''@65535'') initState =
       Some (initState\<lparr>gInsFields := clearedFields
               \<lparr>addFldString := ''65535'' @ NUL # replicate 4 INVALID_VALUE,
                bitFields := ''1111111111111111'' @ [NUL]\<rparr>\<rparr>, SYSTEM_SUCCESS)
   \<and> secondPassLoop (\<lambda>x. 0) [asmLine ''@KBD''] initState =
       Some (initState\<lparr>opFile := ''0110000000000000'' @ [LF]\<rparr>)
   \<and> secondPassLoop (\<lambda>x. 0) [asmLine ''@sum''] initState =
       Some (initState\<lparr>gSymbolTable := initSymbolTable @ [(''sum'', 16)], currMemory := 17,
                       opFile := ''0000000000010000'' @ [LF]\<rparr>)"
proof -
  have first: "rd (asmLine ''@70000'') 0 = Some (CHR ''@'')"
    by (simp add: asmLine_eq rd_def)
  note big = address_form_never_rejected [OF first, of "\<lambda>x. 0" initState "[]"]
  have "lineParser (\<lambda>x. 0) (asmLine ''@70000'') initState \<noteq> None"
    using big [THEN conjunct2, THEN conjunct1, rule_format, of "''70000''" "LF # replicate 92 NUL"]
    by (simp add: asmLine_eq initState_def clearedFields_def)
  with big [THEN conjunct1]
  have accepted: "\<exists>st1 addr. lineParser (\<lambda>x. 0) (asmLine ''@70000'') initState =
               Some (st1\<lparr>gInsFields := (gInsFields st1)\<lparr>bitFields := addrWord addr @ [NUL]\<rparr>\<rparr>,
                     SYSTEM_SUCCESS)
          \<and> secondPassLoop (\<lambda>x. 0) [asmLine ''@70000''] initState =
               Some (varInit (st1\<lparr>opFile := opFile st1 @ addrWord addr @ [LF]\<rparr>))"
    by blast
  have digits: "\<forall>c \<in> set ''65535''. digit c" and val: "decval ''65535'' = 65535"
    by (simp_all add: digit_def decval_def)
  have max: "lineParser (\<lambda>x. 0) (asmLine ''@65535'') initState =
       Some (initState\<lparr>gInsFields := clearedFields
               \<lparr>addFldString := ''65535'' @ NUL # replicate 4 INVALID_VALUE,
                bitFields := ''1111111111111111'' @ [NUL]\<rparr>\<rparr>, SYSTEM_SUCCESS)"
    using lineParser_literal [OF _ digits _ _ _, of initState "asmLine ''@65535''" "LF # replicate 92 NUL" "\<lambda>x. 0"]
    by (simp add: val initState_def clearedFields_def asmLine_eq addrWord_eq bitChar_eq bit_0)
  have kbd: "rd (asmLine ''@KBD'') 0 = Some (CHR ''@'')"
    by (simp add: asmLine_eq rd_def)
  have "secondPassLoop (\<lambda>x. 0) [asmLine ''@KBD''] initState =
      Some (initState\<lparr>opFile := opFile initState @ addrWord 24576 @ [LF]\<rparr>)"
    by (rule address_form_never_rejected [OF kbd, of "\<lambda>x. 0" initState "[]", THEN conjunct2, THEN conjunct2,
        THEN conjunct2, THEN conjunct2, THEN conjunct1, rule_format, of "''KBD''" 24576])
       (simp add: initState_def initSymbolTable_def)
  then have known: "secondPassLoop (\<lambda>x. 0) [asmLine ''@KBD''] initState =
       Some (initState\<lparr>opFile := ''0110000000000000'' @ [LF]\<rparr>)"
    by (simp only: addrWord_24576) (simp add: initState_def)
  have sum: "rd (asmLine ''@sum'') 0 = Some (CHR ''@'')"
    by (simp add: asmLine_eq rd_def)
  have "secondPassLoop (\<lambda>x. 0) [asmLine ''@sum''] initState =
      Some (initState\<lparr>gSymbolTable := gSymbolTable initState @ [(''sum'', currMemory initState)],
                      currMemory := currMemory initState + 1,
                      opFile := opFile initState @ addrWord (currMemory initState) @ [LF]\<rparr>)"
    by (rule address_form_never_rejected [OF sum, of "\<lambda>x. 0" initState "[]", THEN conjunct2, THEN conjunct2,
        THEN conjunct2, THEN conjunct2, THEN conjunct2, rule_format, of "''sum''"])
       (simp add: initState_def initSymbolTable_def)
  moreover have "addrWord 16 = ''0000000000010000''"
    by (simp add: addrWord_eq bitChar_eq bit_0)
  ultimately have fresh: "secondPassLoop (\<lambda>x. 0) [asmLine ''@sum''] initState =
       Some (initState\<lparr>gSymbolTable := initSymbolTable @ [(''sum'', 16)], currMemory := 17,
                       opFile := ''0000000000010000'' @ [LF]\<rparr>)"
    by (simp add: initState_def del: secondPassLoop.simps)
  from first accepted max known fresh show ?thesis
    by (intro conjI)
qed

section \<open>Lines the parser does not take as the grammar reads them\<close>

text \<open>
  Claim C6, at the line \<^verbatim>\<open>D=D+1+1\<close>. The operation text \<^verbatim>\<open>D+1+1\<close> is in no entry of
  \<open>compFieldLT\<close>. The operation loop stores its five bytes in \<^verbatim>\<open>cmpFldString[0..4]\<close>, and the
  NUL that ends the field goes to \<^verbatim>\<open>cmpFldString[5]\<close>, outside the array of five bytes: the
  parser yields no fields. In \<^verbatim>\<open>ISA_Field\<close> the byte after \<^verbatim>\<open>cmpFldString\<close> is \<^verbatim>\<open>addFldString[0]\<close>;
  with the NUL stored there, \<open>lineCommand\<close> takes the address branch for an empty operand and
  returns \<^verbatim>\<open>SYSTEM_SUCCESS\<close> with the word of sixteen zeros.
\<close>
theorem long_operation_overruns:
  "''D+1+1'' \<notin> fst ` set compFieldLT
   \<and> copyUntil (\<lambda>c. c = CHR '';'' \<or> c = CR) (asmLine ''D=D+1+1'') 2 (cmpFldString clearedFields) 0 =
       Some (''D+1+1'', 7, 5)
   \<and> wr ''D+1+1'' 5 NUL = None
   \<and> parseFields (asmLine ''D=D+1+1'') clearedFields = None
   \<and> lineParser oor (asmLine ''D=D+1+1'') initState = None
   \<and> lineCommand oor
        (clearedFields\<lparr>destFldString := ''D'' @ replicate 4 NUL, cmpFldString := ''D+1+1'',
                        addFldString := NUL # replicate 9 INVALID_VALUE\<rparr>) =
       Some (clearedFields\<lparr>destFldString := ''D'' @ replicate 4 NUL, cmpFldString := ''D+1+1'',
                        addFldString := NUL # replicate 9 INVALID_VALUE,
                        bitFields := ''0000000000000000'' @ [NUL]\<rparr>, SYSTEM_SUCCESS)"
proof -
  let ?line = "asmLine ''D=D+1+1''"
  have unmatched: "''D+1+1'' \<notin> fst ` set compFieldLT"
    by (simp add: compFieldLT_def)
  have line: "?line = ''D'' @ CHR ''='' # ''D+1+1'' @ CR # LF # replicate 91 NUL"
    by (simp add: asmLine_eq)
  have add: "wr (addFldString clearedFields) 0 INVALID_VALUE = Some (replicate 10 INVALID_VALUE)"
    by (simp add: wr_def clearedFields_def numeral_eq_Suc)
  have dest: "copyUntil (\<lambda>c. c = CHR ''='' \<or> c = CHR '';'') ?line 0 (destFldString clearedFields) 0 =
      Some (''D'' @ drop (length ''D'') (destFldString clearedFields), length ''D'', length ''D'')"
    unfolding line by (rule copyUntil_start) (simp_all add: clearedFields_def)
  have cmp: "copyUntil (\<lambda>c. c = CHR '';'' \<or> c = CR) ?line 2 (cmpFldString clearedFields) 0 =
      Some (''D+1+1'' @ drop (length ''D+1+1'') (cmpFldString clearedFields),
            length (''D'' @ ''='') + length ''D+1+1'', length ''D+1+1'')"
    using copyUntil_from [of "''D+1+1''" "\<lambda>c. c = CHR '';'' \<or> c = CR" CR "cmpFldString clearedFields"
        2 "''D'' @ ''=''" "LF # replicate 91 NUL"]
    by (simp add: line clearedFields_def)
  then have cmp': "copyUntil (\<lambda>c. c = CHR '';'' \<or> c = CR) ?line 2 (cmpFldString clearedFields) 0 =
      Some (''D+1+1'', 7, 5)"
    by (simp add: clearedFields_def)
  have past: "wr ''D+1+1'' 5 NUL = None"
    by (simp add: wr_def)
  have at1: "?line ! 1 = CHR ''=''"
    by (simp add: asmLine_eq)
  have ended: "wr (''D'' @ drop (length ''D'') (destFldString clearedFields)) 1 NUL =
      Some (''D'' @ replicate 4 NUL)"
    by (simp add: wr_def clearedFields_def numeral_eq_Suc)
  have cmp2: "copyUntil (\<lambda>c. c = CHR '';'' \<or> c = CR) ?line (Suc (Suc 0)) (cmpFldString clearedFields) 0 =
      Some (''D+1+1'', 7, 5)"
    using cmp' by (simp only: numeral_2_eq_2)
  have fields: "parseFields ?line clearedFields = None"
    using add dest at1 ended cmp2 past by (simp add: parseFields_def)
  have "isComment ?line = Some False" "rd ?line 0 = Some (CHR ''D'')"
    by (simp_all add: isComment_def asmLine_eq rd_def)
  then have parser: "lineParser oor ?line initState = None"
    using fields by (simp add: lineParser_computation initState_def)
  let ?f = "clearedFields\<lparr>destFldString := ''D'' @ replicate 4 NUL, cmpFldString := ''D+1+1'',
                        addFldString := NUL # replicate 9 INVALID_VALUE\<rparr>"
  have "lineCommand oor ?f =
      Some (?f\<lparr>bitFields := addrBits (addrLoop oor ([] @ NUL # replicate 9 INVALID_VALUE) (length ([]::string)) 0
                                     ((length ([]::string) + 255) mod 256) 0) (replicate 17 NUL)\<rparr>,
          SYSTEM_SUCCESS)"
    by (rule lineCommand_addr) simp_all
  moreover have "addrLoop oor (NUL # replicate 9 INVALID_VALUE) 0 0 255 0 = 0"
    by (simp add: addrLoop.simps)
  moreover have "addrWord 0 = ''0000000000000000''"
    by (simp add: addrWord_eq bitChar_eq bit_0)
  ultimately have word: "lineCommand oor ?f =
      Some (?f\<lparr>bitFields := ''0000000000000000'' @ [NUL]\<rparr>, SYSTEM_SUCCESS)"
    by (simp add: addrBits_addrWord)
  from unmatched cmp' past fields parser word show ?thesis
    by (intro conjI)
qed

lemma secondPassLoop_literal_any:
  assumes st: "gInsFields st = clearedFields"
    and ds: "CR \<notin> set ds" "\<not> (of_char (hd (ds @ [CR])) :: nat) > of_char (CHR ''9'')" "length ds \<le> 9"
  shows "\<exists>addr. secondPassLoop oor (asmLine (CHR ''@'' # ds) # rest) st =
           secondPassLoop oor rest (st\<lparr>opFile := opFile st @ addrWord addr @ [LF]\<rparr>)"
proof -
  let ?line = "asmLine (CHR ''@'' # ds)"
  let ?st1 = "st\<lparr>gInsFields := (gInsFields st)
             \<lparr>addFldString := ds @ NUL # drop (length ds + 1) (addFldString (gInsFields st))\<rparr>\<rparr>"
  have first: "rd ?line 0 = Some (CHR ''@'')"
    by (rule asmLine_rd0)
  have "?line = CHR ''@'' # ds @ CR # LF # replicate (97 - length ds) NUL"
    by (simp add: asmLine_eq)
  then have parse: "parseAddress ?line st = Some ?st1"
    using ds by (intro parseAddress_literal) (simp_all add: st cleared_lengths)
  from parseAddress_address [OF parse] obtain a
    where "rd (addFldString (gInsFields ?st1)) 0 = Some a" "a \<noteq> INVALID_VALUE"
      "NUL \<in> set (addFldString (gInsFields ?st1))"
    by blast
  from lineCommand_address_any [OF this] obtain addr
    where "lineCommand oor (gInsFields ?st1) =
        Some ((gInsFields ?st1)\<lparr>bitFields := addrWord addr @ [NUL]\<rparr>, SYSTEM_SUCCESS)"
    by blast
  with parse have parsed: "lineParser oor ?line st =
      Some (?st1\<lparr>gInsFields := (gInsFields ?st1)\<lparr>bitFields := addrWord addr @ [NUL]\<rparr>\<rparr>, SYSTEM_SUCCESS)"
    by (simp add: lineParser_address [OF first])
  have emit: "secondPassLoop oor (?line # rest) st =
      secondPassLoop oor rest
        (varInit (?st1\<lparr>gInsFields := (gInsFields ?st1)\<lparr>bitFields := addrWord addr @ [NUL]\<rparr>,
                       opFile := opFile st @ addrWord addr @ [LF]\<rparr>))"
    by (subst secondPassLoop_emit [OF parsed, of "addrWord addr" "[]"])
       (simp_all add: addrWord_NUL)
  have "varInit (?st1\<lparr>gInsFields := (gInsFields ?st1)\<lparr>bitFields := addrWord addr @ [NUL]\<rparr>,
                       opFile := opFile st @ addrWord addr @ [LF]\<rparr>) =
      st\<lparr>opFile := opFile st @ addrWord addr @ [LF]\<rparr>"
    using st by (cases st) (simp add: varInit_def)
  with emit have "secondPassLoop oor (?line # rest) st =
      secondPassLoop oor rest (st\<lparr>opFile := opFile st @ addrWord addr @ [LF]\<rparr>)"
    by simp
  then show ?thesis ..
qed

text \<open>
  Claim C4, at the lines \<^verbatim>\<open>@$tmp\<close>, \<^verbatim>\<open>@i\<close>. The name \<^verbatim>\<open>$tmp\<close> is no number and is not in the
  symbol table, but its first byte is below \<^verbatim>\<open>'9'\<close>: the parser takes the operand as a literal,
  nothing is allocated for it, and the next new name \<^verbatim>\<open>i\<close> gets the address 16. With \<^verbatim>\<open>@_tmp\<close>
  in its place the two names get 16 and 17.
\<close>
theorem dollar_variable_not_allocated:
  "map_of (gSymbolTable initState) ''$tmp'' = None
   \<and> (\<exists>addr. secondPassLoop oor [asmLine ''@$tmp'', asmLine ''@i''] initState =
         Some (initState\<lparr>gSymbolTable := initSymbolTable @ [(''i'', 16)], currMemory := 17,
                 opFile := addrWord addr @ [LF] @ ''0000000000010000'' @ [LF]\<rparr>))
   \<and> secondPassLoop oor [asmLine ''@_tmp'', asmLine ''@i''] initState =
         Some (initState\<lparr>gSymbolTable := initSymbolTable @ [(''_tmp'', 16), (''i'', 17)],
                 currMemory := 18,
                 opFile := ''0000000000010000'' @ [LF] @ ''0000000000010001'' @ [LF]\<rparr>)"
proof (intro conjI)
  show "map_of (gSymbolTable initState) ''$tmp'' = None"
    by (simp add: initState_def initSymbolTable_def)
  have w16: "addrWord 16 = ''0000000000010000''" and w17: "addrWord 17 = ''0000000000010001''"
    by (simp_all add: addrWord_eq bitChar_eq bit_0)
  from secondPassLoop_literal_any [of initState "''$tmp''" oor "[asmLine ''@i'']"]
  obtain addr where dollar: "secondPassLoop oor [asmLine ''@$tmp'', asmLine ''@i''] initState =
      secondPassLoop oor [asmLine ''@i''] (initState\<lparr>opFile := opFile initState @ addrWord addr @ [LF]\<rparr>)"
    by (auto simp: initState_def)
  have "secondPassLoop oor [asmLine ''@i''] (initState\<lparr>opFile := opFile initState @ addrWord addr @ [LF]\<rparr>) =
      Some (initState\<lparr>gSymbolTable := initSymbolTable @ [(''i'', 16)], currMemory := 17,
                 opFile := addrWord addr @ [LF] @ ''0000000000010000'' @ [LF]\<rparr>)"
    by (subst secondPassLoop_variable) (simp_all add: initState_def initSymbolTable_def w16)
  with dollar show "\<exists>addr. secondPassLoop oor [asmLine ''@$tmp'', asmLine ''@i''] initState =
         Some (initState\<lparr>gSymbolTable := initSymbolTable @ [(''i'', 16)], currMemory := 17,
                 opFile := addrWord addr @ [LF] @ ''0000000000010000'' @ [LF]\<rparr>)"
    by (intro exI [of _ addr]) (simp only:)
  have "secondPassLoop oor [asmLine ''@_tmp'', asmLine ''@i''] initState =
      secondPassLoop oor [asmLine ''@i'']
        (initState\<lparr>gSymbolTable := initSymbolTable @ [(''_tmp'', 16)], currMemory := 17,
                   opFile := ''0000000000010000'' @ [LF]\<rparr>)"
    by (subst secondPassLoop_variable) (simp_all add: initState_def initSymbolTable_def w16)
  also have "\<dots> = Some (initState\<lparr>gSymbolTable := initSymbolTable @ [(''_tmp'', 16), (''i'', 17)],
                 currMemory := 18,
                 opFile := ''0000000000010000'' @ [LF] @ ''0000000000010001'' @ [LF]\<rparr>)"
    by (subst secondPassLoop_variable) (simp_all add: initState_def initSymbolTable_def w17)
  finally show "secondPassLoop oor [asmLine ''@_tmp'', asmLine ''@i''] initState =
         Some (initState\<lparr>gSymbolTable := initSymbolTable @ [(''_tmp'', 16), (''i'', 17)],
                 currMemory := 18,
                 opFile := ''0000000000010000'' @ [LF] @ ''0000000000010001'' @ [LF]\<rparr>)" .
qed

end
